theory Spec2Isabelle
  imports Complex_Main
begin

section \<open>Typed arrays and JavaScript reads\<close>

text \<open>
  A \<^verbatim>\<open>Uint8Array\<close>, \<^verbatim>\<open>Uint16Array\<close> or \<^verbatim>\<open>Uint8ClampedArray\<close> is a list of naturals.
  Reading an index past the end yields \<^verbatim>\<open>undefined\<close> in JavaScript; \<open>readAt\<close> makes that
  explicit as \<open>None\<close>. A write past the end of a typed array is ignored, which is what
  \<open>xs[i := v]\<close> does.
\<close>

definition readAt :: "'a list \<Rightarrow> nat \<Rightarrow> 'a option" where
  "readAt xs i = (if i < length xs then Some (xs ! i) else None)"

text \<open>
  The lift lookup shared by both drawdown engines:
  \<^verbatim>\<open>
  const harness = threading[baseX];
  const treadle = treadling[baseY];
  const tieUpIdx = harness * treadleCount + treadle;
  const lift = tieUp[tieUpIdx];
  ... = lift ? 1 : 0;
  \<close>
  An undefined \<open>harness\<close> or \<open>treadle\<close> makes \<open>tieUpIdx\<close> NaN, and \<open>tieUp[NaN]\<close> is
  undefined, which is falsy, as is an index past the end of \<open>tieUp\<close>.
\<close>

definition liftBit :: "nat list \<Rightarrow> nat list \<Rightarrow> nat list \<Rightarrow> nat \<Rightarrow> nat \<Rightarrow> nat \<Rightarrow> nat" where
  "liftBit thr trd tie tc baseX baseY =
     (case readAt thr baseX of
        None \<Rightarrow> 0
      | Some harness \<Rightarrow>
         (case readAt trd baseY of
            None \<Rightarrow> 0
          | Some treadle \<Rightarrow>
             (case readAt tie (harness * tc + treadle) of
                None \<Rightarrow> 0
              | Some lift \<Rightarrow> if lift \<noteq> 0 then 1 else 0)))"

section \<open>The weave model (src/types/weaveModel.ts)\<close>

record repeat_t =
  warp :: nat
  weft :: nat

record symmetry_t =
  warpMirror :: bool
  weftMirror :: bool

record loom_t =
  maxHarness :: nat
  maxTreadle :: nat
  maxWarp :: nat
  maxWeft :: nat

text \<open>
  The five fields that \<^verbatim>\<open>WeaveModel\<close> and the jacquard \<^verbatim>\<open>WeaveStructure\<close> have in common
  form the base record; the yarn colour lists play no part in the functions below and
  are left out. The source reads \<^verbatim>\<open>repeat\<close> and \<^verbatim>\<open>symmetry\<close> through \<^verbatim>\<open>?.\<close>, so
  both may be absent.
\<close>

record draft =
  harnessCount :: nat
  treadleCount :: nat
  threading :: "nat list"
  treadling :: "nat list"
  tieUp :: "nat list"

record WeaveModel = draft +
  warpCount :: nat
  weftCount :: nat
  repeat :: "repeat_t option"
  symmetry :: "symmetry_t option"
  loom :: loom_t

section \<open>generateDrawdown (core/cad/weaveDrawdown)\<close>

definition repeatWarp :: "'a WeaveModel_scheme \<Rightarrow> nat" where
  "repeatWarp model = (case repeat model of None \<Rightarrow> 1 | Some r \<Rightarrow> warp r)"

definition repeatWeft :: "'a WeaveModel_scheme \<Rightarrow> nat" where
  "repeatWeft model = (case repeat model of None \<Rightarrow> 1 | Some r \<Rightarrow> weft r)"

definition hasWarpMirror :: "'a WeaveModel_scheme \<Rightarrow> bool" where
  "hasWarpMirror model = (case symmetry model of None \<Rightarrow> False | Some s \<Rightarrow> warpMirror s)"

definition hasWeftMirror :: "'a WeaveModel_scheme \<Rightarrow> bool" where
  "hasWeftMirror model = (case symmetry model of None \<Rightarrow> False | Some s \<Rightarrow> weftMirror s)"

text \<open>The body of the two nested loops: the value written to \<open>drawdown[y * outWidth + x]\<close>.\<close>

definition drawdownCell :: "'a WeaveModel_scheme \<Rightarrow> nat \<Rightarrow> nat \<Rightarrow> nat" where
  "drawdownCell model x y =
     (let baseX0 = x mod warpCount model;
          baseY0 = y mod weftCount model;
          baseX = (if hasWarpMirror model \<and> (x div warpCount model) mod 2 = 1
                   then warpCount model - 1 - baseX0 else baseX0);
          baseY = (if hasWeftMirror model \<and> (y div weftCount model) mod 2 = 1
                   then weftCount model - 1 - baseY0 else baseY0)
      in liftBit (threading model) (treadling model) (tieUp model) (treadleCount model)
           baseX baseY)"

definition generateDrawdown :: "'a WeaveModel_scheme \<Rightarrow> nat list" where
  "generateDrawdown model =
     (let outWidth = warpCount model * repeatWarp model;
          outHeight = weftCount model * repeatWeft model;
          drawdown = replicate (outWidth * outHeight) 0
      in fold (\<lambda>y dd. fold (\<lambda>x dd. dd[y * outWidth + x := drawdownCell model x y])
                         [0..<outWidth] dd)
              [0..<outHeight] drawdown)"

section \<open>Pattern generators (core/cad/weaveGenerators.ts)\<close>

text \<open>
  A store into a \<^verbatim>\<open>Uint8Array\<close> keeps the value modulo 256. \<^verbatim>\<open>i % 0\<close> is NaN in
  JavaScript, and NaN is stored as 0.
\<close>

definition toUint8 :: "nat \<Rightarrow> nat" where
  "toUint8 v = v mod 256"

definition jsModStore :: "nat \<Rightarrow> nat \<Rightarrow> nat" where
  "jsModStore i n = (if n = 0 then 0 else toUint8 (i mod n))"

definition applyStraightDraw :: "'a WeaveModel_scheme \<Rightarrow> 'a WeaveModel_scheme" where
  "applyStraightDraw model =
     (let model1 = model\<lparr>threading :=
            fold (\<lambda>i thr. thr[i := jsModStore i (harnessCount model)])
                 [0..<warpCount model] (threading model)\<rparr>
      in model1\<lparr>treadling :=
            fold (\<lambda>i trd. trd[i := jsModStore i (treadleCount model1)])
                 [0..<weftCount model1] (treadling model1)\<rparr>)"

definition applyPlainWeave :: "'a WeaveModel_scheme \<Rightarrow> 'a WeaveModel_scheme" where
  "applyPlainWeave model =
     (let tieUp0 = replicate (harnessCount model * treadleCount model) 0;
          tieUp1 = fold (\<lambda>i t. t[i * treadleCount model + i := 1])
                        [0..<min (harnessCount model) (treadleCount model)] tieUp0
      in model\<lparr>tieUp := tieUp1\<rparr>)"

text \<open>Concrete drafts used to evaluate the functions above.\<close>

definition plainDraft :: WeaveModel where
  "plainDraft = \<lparr>harnessCount = 2, treadleCount = 2, threading = [0, 1], treadling = [0, 1],
     tieUp = [1, 0, 0, 1], warpCount = 2, weftCount = 2,
     repeat = Some \<lparr>warp = 1, weft = 1\<rparr>,
     symmetry = Some \<lparr>warpMirror = False, weftMirror = False\<rparr>,
     loom = \<lparr>maxHarness = 16, maxTreadle = 16, maxWarp = 64, maxWeft = 64\<rparr>\<rparr>"

definition mirrorDraft :: WeaveModel where
  "mirrorDraft = \<lparr>harnessCount = 2, treadleCount = 1, threading = [0, 1], treadling = [0],
     tieUp = [1, 0], warpCount = 2, weftCount = 1,
     repeat = Some \<lparr>warp = 2, weft = 1\<rparr>,
     symmetry = Some \<lparr>warpMirror = True, weftMirror = False\<rparr>,
     loom = \<lparr>maxHarness = 16, maxTreadle = 16, maxWarp = 64, maxWeft = 64\<rparr>\<rparr>"

definition fourShaftDraft :: WeaveModel where
  "fourShaftDraft = \<lparr>harnessCount = 4, treadleCount = 4, threading = [0, 0, 0, 0],
     treadling = [0, 0, 0, 0], tieUp = replicate 16 0, warpCount = 4, weftCount = 4,
     repeat = Some \<lparr>warp = 1, weft = 1\<rparr>,
     symmetry = Some \<lparr>warpMirror = False, weftMirror = False\<rparr>,
     loom = \<lparr>maxHarness = 16, maxTreadle = 16, maxWarp = 64, maxWeft = 64\<rparr>\<rparr>"

section \<open>The jacquard model (types/jacquardModel) and generateJacquardDrawdown\<close>

text \<open>
  A \<^verbatim>\<open>WeaveStructure\<close> is a draft with an id and a name. Of the \<^verbatim>\<open>JacquardModel\<close> the
  drawdown reads the extent, the grid (a \<^verbatim>\<open>Uint16Array\<close> of structure indices) and the
  structures; densities, yarn colours and view state are left out.
\<close>

record WeaveStructure = draft +
  structId :: string
  structName :: string

record extent =
  width :: nat
  height :: nat

record JacquardModel = extent +
  grid :: "nat list"
  structures :: "WeaveStructure list"

text \<open>
  The loop body. \<^verbatim>\<open>grid[cellIdx] ?? 0\<close> reads a missing grid entry as 0, and
  \<^verbatim>\<open>structures[structIdx]\<close> is undefined (falsy) exactly when the index is past the end
  of the array. For an empty threading \<^verbatim>\<open>x % 0\<close> is NaN and the lookup is undefined; in
  the model \<open>x mod 0 = x\<close> is past the end of the empty list, with the same result.
\<close>

definition jacquardCell :: "JacquardModel \<Rightarrow> nat \<Rightarrow> nat \<Rightarrow> nat" where
  "jacquardCell model x y =
     (let cellIdx = y * width model + x;
          structIdx = (case readAt (grid model) cellIdx of None \<Rightarrow> 0 | Some g \<Rightarrow> g)
      in case readAt (structures model) structIdx of
           None \<Rightarrow> 1
         | Some s \<Rightarrow>
            (let warpIdx = x mod length (threading s);
                 weftIdx = y mod length (treadling s)
             in liftBit (threading s) (treadling s) (tieUp s) (treadleCount s)
                  warpIdx weftIdx))"

definition generateJacquardDrawdown :: "JacquardModel \<Rightarrow> nat list" where
  "generateJacquardDrawdown model =
     (let drawdown = replicate (width model * height model) 0
      in fold (\<lambda>y dd. fold (\<lambda>x dd. dd[y * width model + x := jacquardCell model x y])
                         [0..<width model] dd)
              [0..<height model] drawdown)"

definition plainStructure :: WeaveStructure where
  "plainStructure = \<lparr>harnessCount = 2, treadleCount = 2, threading = [0, 1],
     treadling = [0, 1], tieUp = [1, 0, 0, 1], structId = ''plain'',
     structName = ''Plain Weave''\<rparr>"

definition smallJacquard :: JacquardModel where
  "smallJacquard = \<lparr>width = 2, height = 1, grid = [0, 5], structures = [plainStructure]\<rparr>"

section \<open>validateWeave (core/cad/weaveValidate.ts)\<close>

text \<open>Decimal rendering of a count inside a template string.\<close>

definition digitChar :: "nat \<Rightarrow> char" where
  "digitChar d = char_of (48 + d)"

function showNat :: "nat \<Rightarrow> string" where
  "showNat n = (if n < 10 then [digitChar n] else showNat (n div 10) @ [digitChar (n mod 10)])"
  by pat_completeness auto
termination
  by (relation "measure (\<lambda>n. n)") auto

declare showNat.simps [simp del]

definition capacityMessage :: "string \<Rightarrow> nat \<Rightarrow> nat \<Rightarrow> string" where
  "capacityMessage what n limit =
     what @ '' count ('' @ showNat n @ '') exceeds loom capacity ('' @ showNat limit @ '')''"

definition emptyTieUpMessage :: string where
  "emptyTieUpMessage = ''Tie-up is empty - no pattern will be generated''"

definition threadingMessage :: "nat \<Rightarrow> string" where
  "threadingMessage i =
     ''Threading at position '' @ showNat (i + 1) @ '' references invalid harness''"

definition treadlingMessage :: "nat \<Rightarrow> string" where
  "treadlingMessage i =
     ''Treadling at position '' @ showNat (i + 1) @ '' references invalid treadle''"

text \<open>
  The two bounds loops have the same shape:
  \<^verbatim>\<open>
  for (let i = 0; i < n; i++) {
      if (arr[i] >= bound) { errors.push(msg(i)); break; }
  }
  \<close>
  A read past the end of the array is undefined, and \<^verbatim>\<open>undefined >= bound\<close> is false.
\<close>

definition outOfBounds :: "nat list \<Rightarrow> nat \<Rightarrow> nat \<Rightarrow> bool" where
  "outOfBounds arr bound i = (case readAt arr i of None \<Rightarrow> False | Some v \<Rightarrow> v \<ge> bound)"

function boundsLoop ::
  "nat list \<Rightarrow> nat \<Rightarrow> (nat \<Rightarrow> string) \<Rightarrow> nat \<Rightarrow> nat \<Rightarrow> string list \<Rightarrow> string list" where
  "boundsLoop arr bound msg n i errors =
     (if i < n
      then (if outOfBounds arr bound i then errors @ [msg i]
            else boundsLoop arr bound msg n (Suc i) errors)
      else errors)"
  by pat_completeness auto
termination
  by (relation "measure (\<lambda>(arr, bound, msg, n, i, errors). n - i)") auto

declare boundsLoop.simps [simp del]

definition validateWeave :: "'a WeaveModel_scheme \<Rightarrow> string list" where
  "validateWeave model =
     (let errors0 = [];
          errors1 = (if harnessCount model > maxHarness (loom model)
                     then errors0 @ [capacityMessage ''Harness'' (harnessCount model)
                                       (maxHarness (loom model))]
                     else errors0);
          errors2 = (if treadleCount model > maxTreadle (loom model)
                     then errors1 @ [capacityMessage ''Treadle'' (treadleCount model)
                                       (maxTreadle (loom model))]
                     else errors1);
          errors3 = (if warpCount model > maxWarp (loom model)
                     then errors2 @ [capacityMessage ''Warp'' (warpCount model)
                                       (maxWarp (loom model))]
                     else errors2);
          errors4 = (if weftCount model > maxWeft (loom model)
                     then errors3 @ [capacityMessage ''Weft'' (weftCount model)
                                       (maxWeft (loom model))]
                     else errors3);
          hasTieUp = list_ex (\<lambda>v. v = 1) (tieUp model);
          errors5 = (if \<not> hasTieUp then errors4 @ [emptyTieUpMessage] else errors4);
          errors6 = boundsLoop (threading model) (harnessCount model) threadingMessage
                      (warpCount model) 0 errors5;
          errors7 = boundsLoop (treadling model) (treadleCount model) treadlingMessage
                      (weftCount model) 0 errors6
      in errors7)"

text \<open>
  The range checks in the words of the specification: position \<open>i\<close> of the threading
  (treadling) offends when it lies within the warp (weft) count, holds an entry, and the
  entry is not below the harness (treadle) count.
\<close>

definition threadingViolation :: "'a WeaveModel_scheme \<Rightarrow> nat \<Rightarrow> bool" where
  "threadingViolation model i =
     (i < warpCount model \<and> i < length (threading model) \<and>
      \<not> threading model ! i < harnessCount model)"

definition treadlingViolation :: "'a WeaveModel_scheme \<Rightarrow> nat \<Rightarrow> bool" where
  "treadlingViolation model i =
     (i < weftCount model \<and> i < length (treadling model) \<and>
      \<not> treadling model ! i < treadleCount model)"

text \<open>A draft that fails the harness check and both range checks.\<close>

definition invalidDraft :: WeaveModel where
  "invalidDraft = \<lparr>harnessCount = 2, treadleCount = 2, threading = [0, 3, 1, 7],
     treadling = [2, 0], tieUp = [1, 0, 0, 1], warpCount = 4, weftCount = 2,
     repeat = Some \<lparr>warp = 1, weft = 1\<rparr>,
     symmetry = Some \<lparr>warpMirror = False, weftMirror = False\<rparr>,
     loom = \<lparr>maxHarness = 1, maxTreadle = 16, maxWarp = 64, maxWeft = 64\<rparr>\<rparr>"

section \<open>Rasters and colours\<close>

text \<open>
  An \<^verbatim>\<open>ImageData\<close> has a width, a height and the interleaved RGBA bytes, four per
  pixel, in a \<^verbatim>\<open>Uint8ClampedArray\<close>. Decoding a data URL into an \<^verbatim>\<open>ImageData\<close> and
  encoding it again are done by the browser; the functions below start from the decoded
  raster and return the raster they would encode.
\<close>

record ImageData = extent +
  data :: "nat list"

record 'a rgb =
  rgbR :: 'a
  rgbG :: 'a
  rgbB :: 'a

text \<open>A JavaScript number as \<^verbatim>\<open>parseInt\<close> returns it: NaN or an integer.\<close>

datatype jsnum = NaN | Num int

text \<open>
  A store into a \<^verbatim>\<open>Uint8ClampedArray\<close> writes 0 for NaN and clamps an integer to
  0..255.
\<close>

definition clampStore :: "jsnum \<Rightarrow> nat" where
  "clampStore v = (case v of NaN \<Rightarrow> 0 | Num n \<Rightarrow> nat (max 0 (min 255 n)))"

subsection \<open>hexToRgb (core/imaging/mergeColors)\<close>

text \<open>
  \<^verbatim>\<open>
  const h = hex.replace("#", "").trim();
  return { r: parseInt(h.slice(0, 2), 16), g: parseInt(h.slice(2, 4), 16),
           b: parseInt(h.slice(4, 6), 16) };
  \<close>
  \<^verbatim>\<open>replace\<close> with a string pattern removes the first occurrence; \<^verbatim>\<open>trim\<close> strips white
  space at both ends; \<^verbatim>\<open>parseInt(s, 16)\<close> skips leading white space, reads an optional
  sign and an optional \<^verbatim>\<open>0x\<close> prefix, and then the longest run of hexadecimal digits, NaN
  if there is none. White space is taken among the 8-bit characters.
\<close>

definition isJsSpace :: "char \<Rightarrow> bool" where
  "isJsSpace c = (of_char c \<in> {9, 10, 11, 12, 13, 32, 160 :: nat})"

definition jsTrim :: "string \<Rightarrow> string" where
  "jsTrim s = rev (dropWhile isJsSpace (rev (dropWhile isJsSpace s)))"

definition jsSlice :: "string \<Rightarrow> nat \<Rightarrow> nat \<Rightarrow> string" where
  "jsSlice s a b = take (b - a) (drop a s)"

definition hexDigitValue :: "char \<Rightarrow> nat option" where
  "hexDigitValue c =
     (let n = (of_char c :: nat)
      in if 48 \<le> n \<and> n \<le> 57 then Some (n - 48)
         else if 97 \<le> n \<and> n \<le> 102 then Some (n - 87)
         else if 65 \<le> n \<and> n \<le> 70 then Some (n - 55)
         else None)"

definition stripSign :: "string \<Rightarrow> bool \<times> string" where
  "stripSign s =
     (case s of
        [] \<Rightarrow> (False, [])
      | c # cs \<Rightarrow> if c = CHR ''-'' then (True, cs)
                  else if c = CHR ''+'' then (False, cs)
                  else (False, s))"

definition stripHexPrefix :: "string \<Rightarrow> string" where
  "stripHexPrefix s =
     (case s of
        c # d # cs \<Rightarrow> if c = CHR ''0'' \<and> (d = CHR ''x'' \<or> d = CHR ''X'') then cs else s
      | _ \<Rightarrow> s)"

definition parseInt16 :: "string \<Rightarrow> jsnum" where
  "parseInt16 s =
     (let (negative, s1) = stripSign (dropWhile isJsSpace s);
          digits = takeWhile (\<lambda>c. hexDigitValue c \<noteq> None) (stripHexPrefix s1);
          magnitude = foldl (\<lambda>acc c. 16 * acc + the (hexDigitValue c)) 0 digits
      in if digits = [] then NaN
         else Num (if negative then - int magnitude else int magnitude))"

definition hexToRgb :: "string \<Rightarrow> jsnum rgb" where
  "hexToRgb hex =
     (let h = jsTrim (remove1 (CHR ''#'') hex)
      in \<lparr>rgbR = parseInt16 (jsSlice h 0 2), rgbG = parseInt16 (jsSlice h 2 4),
          rgbB = parseInt16 (jsSlice h 4 6)\<rparr>)"

subsection \<open>mergeColorInImage (core/imaging/mergeColors)\<close>

text \<open>
  \<^verbatim>\<open>data[i + 3] < 20\<close> and \<^verbatim>\<open>data[i] === from.r\<close>; both are false when the read is
  undefined.
\<close>

definition alphaBelow20 :: "nat list \<Rightarrow> nat \<Rightarrow> bool" where
  "alphaBelow20 d i = (case readAt d (i + 3) of None \<Rightarrow> False | Some a \<Rightarrow> a < 20)"

definition byteIs :: "nat list \<Rightarrow> nat \<Rightarrow> jsnum \<Rightarrow> bool" where
  "byteIs d i v = (case readAt d i of None \<Rightarrow> False | Some b \<Rightarrow> v = Num (int b))"

function mergeLoop ::
  "jsnum rgb \<Rightarrow> jsnum rgb \<Rightarrow> nat list \<Rightarrow> nat \<Rightarrow> nat \<Rightarrow> nat list \<times> nat" where
  "mergeLoop fromRgb toRgb d changedPixels i =
     (if i < length d
      then (if alphaBelow20 d i then mergeLoop fromRgb toRgb d changedPixels (i + 4)
            else if byteIs d i (rgbR fromRgb) \<and> byteIs d (i + 1) (rgbG fromRgb) \<and>
                    byteIs d (i + 2) (rgbB fromRgb)
            then mergeLoop fromRgb toRgb
                   (d[i := clampStore (rgbR toRgb), i + 1 := clampStore (rgbG toRgb),
                      i + 2 := clampStore (rgbB toRgb), i + 3 := 255])
                   (changedPixels + 1) (i + 4)
            else mergeLoop fromRgb toRgb d changedPixels (i + 4))
      else (d, changedPixels))"
  by pat_completeness auto
termination
  by (relation "measure (\<lambda>(fromRgb, toRgb, d, changedPixels, i). length d - i)") auto

declare mergeLoop.simps [simp del]

definition mergeColorInImage :: "ImageData \<Rightarrow> string \<Rightarrow> string \<Rightarrow> ImageData \<times> nat" where
  "mergeColorInImage imageData fromHex toHex =
     (let (d, changedPixels) = mergeLoop (hexToRgb fromHex) (hexToRgb toHex) (data imageData) 0 0
      in (imageData\<lparr>data := d\<rparr>, changedPixels))"

text \<open>A pixel of a raster, by pixel number: opaque (alpha at least 20) and of a given colour.\<close>

definition opaquePixel :: "nat list \<Rightarrow> nat \<Rightarrow> bool" where
  "opaquePixel d p = (4 * p + 3 < length d \<and> 20 \<le> d ! (4 * p + 3))"

definition pixelHasColour :: "nat list \<Rightarrow> nat \<Rightarrow> jsnum rgb \<Rightarrow> bool" where
  "pixelHasColour d p c =
     (4 * p + 3 < length d \<and> rgbR c = Num (int (d ! (4 * p))) \<and>
      rgbG c = Num (int (d ! (4 * p + 1))) \<and> rgbB c = Num (int (d ! (4 * p + 2))))"

text \<open>The colour that the three stores of \<^verbatim>\<open>to.r\<close>, \<^verbatim>\<open>to.g\<close>, \<^verbatim>\<open>to.b\<close> leave in the raster.\<close>

definition storedColour :: "jsnum rgb \<Rightarrow> jsnum rgb" where
  "storedColour c = \<lparr>rgbR = Num (int (clampStore (rgbR c))),
     rgbG = Num (int (clampStore (rgbG c))), rgbB = Num (int (clampStore (rgbB c)))\<rparr>"

text \<open>
  Auxiliary notions for the proofs about the merge loop: whether the pixel whose first
  byte is at \<open>b\<close> passes the loop's test, the byte that the loop stores at offset \<open>k\<close>
  of a matching pixel, and the byte at index \<open>j\<close> after the loop has run. A colour is a
  byte colour when its three components are integers from 0 to 255, as the components of
  a six-digit hexadecimal colour are.
\<close>

definition matchesAt :: "jsnum rgb \<Rightarrow> nat list \<Rightarrow> nat \<Rightarrow> bool" where
  "matchesAt fr d b = (\<not> alphaBelow20 d b \<and> byteIs d b (rgbR fr) \<and> byteIs d (b + 1) (rgbG fr) \<and>
      byteIs d (b + 2) (rgbB fr))"

definition storedByte :: "jsnum rgb \<Rightarrow> nat \<Rightarrow> nat" where
  "storedByte c k = (if k = 0 then clampStore (rgbR c) else if k = 1 then clampStore (rgbG c)
      else if k = 2 then clampStore (rgbB c) else 255)"

definition mergedByte :: "jsnum rgb \<Rightarrow> jsnum rgb \<Rightarrow> nat list \<Rightarrow> nat \<Rightarrow> nat" where
  "mergedByte fr to d j = (if matchesAt fr d (j - j mod 4) then storedByte to (j mod 4) else d ! j)"

definition isByte :: "jsnum \<Rightarrow> bool" where
  "isByte v = (case v of NaN \<Rightarrow> False | Num n \<Rightarrow> 0 \<le> n \<and> n \<le> 255)"

definition isByteColour :: "jsnum rgb \<Rightarrow> bool" where
  "isByteColour c = (isByte (rgbR c) \<and> isByte (rgbG c) \<and> isByte (rgbB c))"

definition twoPixelImage :: ImageData where
  "twoPixelImage = \<lparr>width = 2, height = 1, data = [255, 0, 0, 255, 255, 0, 0, 10]\<rparr>"

section \<open>quantizeKMeans (core/imaging/quantizeKMeans.ts)\<close>

text \<open>
  Samples and centroids are colours with natural components: samples are bytes of the
  raster, and centroids are copies of samples or results of \<open>clampByte\<close>. Only the means
  of one k-means round are fractions; the source computes them in double precision, the
  model exactly, as rationals.
\<close>

definition clampByte :: "rat \<Rightarrow> nat" where
  "clampByte n = nat (max 0 (min 255 (\<lfloor>n + 1 / 2\<rfloor>)))"

text \<open>
  \<^verbatim>\<open>v.toString(16).padStart(2, "0")\<close>, with the digits already in upper case (the
  source upper-cases the whole string afterwards).
\<close>

function toString16 :: "nat \<Rightarrow> string" where
  "toString16 n =
     (let digit = (\<lambda>d. if d < 10 then char_of (48 + d) else char_of (55 + d))
      in if n < 16 then [digit n] else toString16 (n div 16) @ [digit (n mod 16)])"
  by pat_completeness auto
termination
  by (relation "measure (\<lambda>n. n)") auto

declare toString16.simps [simp del]

definition toHex2 :: "nat \<Rightarrow> string" where
  "toHex2 v = (let s = toString16 v in replicate (2 - length s) (CHR ''0'') @ s)"

definition rgbToHex :: "nat rgb \<Rightarrow> string" where
  "rgbToHex c = CHR ''#'' # toHex2 (rgbR c) @ toHex2 (rgbG c) @ toHex2 (rgbB c)"

definition dist2 :: "nat rgb \<Rightarrow> nat rgb \<Rightarrow> int" where
  "dist2 a b =
     (let dr = int (rgbR a) - int (rgbR b);
          dg = int (rgbG a) - int (rgbG b);
          db = int (rgbB a) - int (rgbB b)
      in dr * dr + dg * dg + db * db)"

definition dist2Mean :: "nat rgb \<Rightarrow> rat rgb \<Rightarrow> rat" where
  "dist2Mean a b =
     (let dr = of_nat (rgbR a) - rgbR b;
          dg = of_nat (rgbG a) - rgbG b;
          db = of_nat (rgbB a) - rgbB b
      in dr * dr + dg * dg + db * db)"

text \<open>
  \<^verbatim>\<open>pickInitialCentroids\<close> draws indices with \<^verbatim>\<open>randomInt(samples.length)\<close> until it has
  \<open>k\<close> distinct ones or has used every sample, then pads with copies of the first sample.
  The random source is a parameter: the list of numbers drawn, each reduced to the range
  of \<^verbatim>\<open>randomInt\<close>. The rejection loop has no bound of its own; when the list is used up
  before the loop ends, the result is \<open>None\<close>. \<open>used\<close> holds distinct indices, so its
  length is the size of the set.
\<close>

fun pickRandom ::
  "nat list \<Rightarrow> nat rgb list \<Rightarrow> nat \<Rightarrow> nat rgb list \<Rightarrow> nat list \<Rightarrow> nat rgb list option" where
  "pickRandom [] samples k centroids used =
     (if length centroids < k \<and> length used < length samples then None else Some centroids)"
| "pickRandom (draw # draws) samples k centroids used =
     (if length centroids < k \<and> length used < length samples
      then (let idx = draw mod length samples
            in if idx \<in> set used then pickRandom draws samples k centroids used
               else pickRandom draws samples k (centroids @ [samples ! idx]) (used @ [idx]))
      else Some centroids)"

definition pickInitialCentroids :: "nat list \<Rightarrow> nat rgb list \<Rightarrow> nat \<Rightarrow> nat rgb list option" where
  "pickInitialCentroids draws samples k =
     (case pickRandom draws samples k [] [] of
        None \<Rightarrow> None
      | Some centroids \<Rightarrow> Some (centroids @ replicate (k - length centroids) (samples ! 0)))"

text \<open>\<^verbatim>\<open>bestD\<close> starts at positive infinity, which is \<open>None\<close> here.\<close>

definition nearestCentroidIndex :: "nat rgb \<Rightarrow> nat rgb list \<Rightarrow> nat" where
  "nearestCentroidIndex p centroids =
     fst (fold (\<lambda>i (best, bestD).
                  let d = dist2 p (centroids ! i)
                  in if (case bestD of None \<Rightarrow> True | Some bd \<Rightarrow> d < bd) then (i, Some d)
                     else (best, bestD))
               [0..<length centroids] (0, None))"

text \<open>Step 1: every \<open>stride\<close>-th pixel that is not transparent is a sample.\<close>

partial_function (option) sampleLoop ::
  "nat list \<Rightarrow> nat \<Rightarrow> nat \<Rightarrow> nat rgb list \<Rightarrow> nat rgb list option" where
  "sampleLoop d stride i samples =
     (if i < length d
      then (if alphaBelow20 d i then sampleLoop d stride (i + 4 * stride) samples
            else sampleLoop d stride (i + 4 * stride)
                   (samples @ [\<lparr>rgbR = d ! i, rgbG = d ! (i + 1), rgbB = d ! (i + 2)\<rparr>]))
      else Some samples)"

declare sampleLoop.simps [code]

text \<open>Step 3: one round of k-means, and the loop with its early exit.\<close>

definition accumulate ::
  "nat rgb list \<Rightarrow> nat rgb list \<Rightarrow> nat \<Rightarrow> nat list \<times> nat list \<times> nat list \<times> nat list" where
  "accumulate samples centroids k =
     fold (\<lambda>p (sumR, sumG, sumB, count).
             let idx = nearestCentroidIndex p centroids
             in (sumR[idx := sumR ! idx + rgbR p], sumG[idx := sumG ! idx + rgbG p],
                 sumB[idx := sumB ! idx + rgbB p], count[idx := count ! idx + 1]))
          samples (replicate k 0, replicate k 0, replicate k 0, replicate k 0)"

definition meanOf :: "nat list \<times> nat list \<times> nat list \<times> nat list \<Rightarrow> nat \<Rightarrow> rat rgb" where
  "meanOf totals i =
     (case totals of (sumR, sumG, sumB, count) \<Rightarrow>
        \<lparr>rgbR = of_nat (sumR ! i) / of_nat (count ! i),
         rgbG = of_nat (sumG ! i) / of_nat (count ! i),
         rgbB = of_nat (sumB ! i) / of_nat (count ! i)\<rparr>)"

definition kmeansRound :: "nat rgb list \<Rightarrow> nat rgb list \<Rightarrow> nat \<Rightarrow> nat rgb list \<times> nat" where
  "kmeansRound samples centroids k =
     (let totals = accumulate samples centroids k;
          count = snd (snd (snd totals));
          moved = length (filter (\<lambda>i. count ! i \<noteq> 0 \<and> dist2Mean (centroids ! i) (meanOf totals i) > 5)
                            [0..<length centroids]);
          next = map (\<lambda>i. if count ! i = 0
                           then \<lparr>rgbR = of_nat (rgbR (centroids ! i)),
                                 rgbG = of_nat (rgbG (centroids ! i)),
                                 rgbB = of_nat (rgbB (centroids ! i))\<rparr>
                           else meanOf totals i)
                     [0..<length centroids]
      in (map (\<lambda>c. \<lparr>rgbR = clampByte (rgbR c), rgbG = clampByte (rgbG c),
                      rgbB = clampByte (rgbB c)\<rparr>) next,
          moved))"

fun kmeansLoop :: "nat \<Rightarrow> nat rgb list \<Rightarrow> nat rgb list \<Rightarrow> nat \<Rightarrow> nat rgb list" where
  "kmeansLoop 0 samples centroids k = centroids"
| "kmeansLoop (Suc iters) samples centroids k =
     (case kmeansRound samples centroids k of
        (centroids', moved) \<Rightarrow>
          if moved = 0 then centroids' else kmeansLoop iters samples centroids' k)"

text \<open>
  Step 4: every pixel of the raster is written to \<open>out\<close>. The stores go into a
  \<^verbatim>\<open>Uint8ClampedArray\<close>, which caps a value at 255.
\<close>

function quantizeLoop ::
  "nat list \<Rightarrow> nat rgb list \<Rightarrow> nat list \<Rightarrow> nat list \<Rightarrow> nat \<Rightarrow> nat list \<times> nat list" where
  "quantizeLoop d centroids out counts i =
     (if i < length d
      then (if alphaBelow20 d i
            then quantizeLoop d centroids (out[i := 0, i + 1 := 0, i + 2 := 0, i + 3 := 0])
                   counts (i + 4)
            else (let p = \<lparr>rgbR = d ! i, rgbG = d ! (i + 1), rgbB = d ! (i + 2)\<rparr>;
                      idx = nearestCentroidIndex p centroids;
                      c = centroids ! idx
                  in quantizeLoop d centroids
                       (out[i := min 255 (rgbR c), i + 1 := min 255 (rgbG c),
                            i + 2 := min 255 (rgbB c), i + 3 := 255])
                       (counts[idx := counts ! idx + 1]) (i + 4)))
      else (out, counts))"
  by pat_completeness auto
termination
  by (relation "measure (\<lambda>(d, centroids, out, counts, i). length d - i)") auto

declare quantizeLoop.simps [simp del]

record QuantizeOptions =
  optK :: int
  maxIters :: "nat option"
  sampleStride :: "nat option"

record QuantizeResult = extent +
  quantized :: ImageData
  palette :: "nat rgb list"
  counts :: "nat list"

definition clampK :: "int \<Rightarrow> nat" where
  "clampK k = nat (max 2 (min 24 k))"

definition strideOf :: "QuantizeOptions \<Rightarrow> nat" where
  "strideOf opts = (case sampleStride opts of None \<Rightarrow> 5 | Some s \<Rightarrow> s)"

definition itersOf :: "QuantizeOptions \<Rightarrow> nat" where
  "itersOf opts = (case maxIters opts of None \<Rightarrow> 12 | Some n \<Rightarrow> n)"

text \<open>
  The result is \<open>None\<close> when the sampling loop does not end (a stride of 0 on a non-empty
  raster) or when the random draws run out.
\<close>

definition quantizeKMeans :: "nat list \<Rightarrow> ImageData \<Rightarrow> QuantizeOptions \<Rightarrow> QuantizeResult option" where
  "quantizeKMeans draws imageData opts =
     (let d = data imageData;
          k = clampK (optK opts)
      in case sampleLoop d (strideOf opts) 0 [] of
           None \<Rightarrow> None
         | Some samples \<Rightarrow>
            if length samples = 0
            then Some \<lparr>width = width imageData, height = height imageData,
                       quantized = \<lparr>width = width imageData, height = height imageData,
                                     data = d\<rparr>,
                       palette = [\<lparr>rgbR = 0, rgbG = 0, rgbB = 0\<rparr>],
                       counts = [width imageData * height imageData]\<rparr>
            else (case pickInitialCentroids draws samples k of
                    None \<Rightarrow> None
                  | Some centroids0 \<Rightarrow>
                     (let centroids = kmeansLoop (itersOf opts) samples centroids0 k;
                          (out, cnts) = quantizeLoop d centroids (replicate (length d) 0)
                                          (replicate k 0) 0
                      in Some \<lparr>width = width imageData, height = height imageData,
                               quantized = \<lparr>width = width imageData,
                                             height = height imageData, data = out\<rparr>,
                               palette = centroids, counts = cnts\<rparr>)))"

subsection \<open>reduceColorsMainThread (core/imaging/reduceColors.ts)\<close>

record ReducedColor =
  hex :: string
  count :: nat
  percent :: rat

record ReductionResult = extent +
  colors :: "ReducedColor list"
  colorCount :: nat
  reducedImage :: ImageData

text \<open>
  \<^verbatim>\<open>.filter((c) => c.count > 0).sort((a, b) => b.count - a.count)\<close>: the sort is stable
  and descending in the count.
\<close>

definition reportColors :: "string list \<Rightarrow> nat list \<Rightarrow> ReducedColor list" where
  "reportColors hexPalette cnts =
     (let total = sum_list cnts;
          entries = map (\<lambda>idx. \<lparr>hex = hexPalette ! idx, count = cnts ! idx,
                                  percent = (if total = 0 then 0
                                             else of_nat (cnts ! idx) / of_nat total * 100)\<rparr>)
                        [0..<length hexPalette]
      in sort_key (\<lambda>c. - int (count c)) (filter (\<lambda>c. count c > 0) entries))"

definition reduceColorsMainThread :: "nat list \<Rightarrow> ImageData \<Rightarrow> int \<Rightarrow> ReductionResult option" where
  "reduceColorsMainThread draws imageData k =
     (case quantizeKMeans draws imageData \<lparr>optK = k, maxIters = Some 12, sampleStride = Some 5\<rparr> of
        None \<Rightarrow> None
      | Some q \<Rightarrow>
         (let hexPalette = map rgbToHex (palette q);
              cols = reportColors hexPalette (counts q)
          in Some \<lparr>width = width q, height = height q, colors = cols,
                   colorCount = length cols, reducedImage = quantized q\<rparr>))"

text \<open>
  Notions used to state and prove the properties of the quantizer: a colour all of whose
  components are bytes; the invariants of the sampling loop (the samples are byte
  colours; a non-transparent sampled pixel makes the sample list non-empty; when every
  sampled pixel is transparent the list is unchanged); the pixel whose first byte is at
  \<open>b\<close>; the four bytes that step 4 writes for it; the number of pixels of the whole
  raster assigned to a centroid; whether sampling meets a pixel with alpha at least 20;
  and a reported colour being the entry of a centroid.
\<close>

definition byteColour :: "nat rgb \<Rightarrow> bool" where
  "byteColour c = (rgbR c \<le> 255 \<and> rgbG c \<le> 255 \<and> rgbB c \<le> 255)"

definition sampleBytesInv :: "nat list \<Rightarrow> nat \<Rightarrow> nat \<Rightarrow> nat rgb list \<Rightarrow> nat rgb list \<Rightarrow> bool" where
  "sampleBytesInv d stride i acc r =
     (4 dvd length d \<and> 4 dvd i \<and> (\<forall>b \<in> set d. b \<le> 255) \<and> (\<forall>c \<in> set acc. byteColour c)
        \<longrightarrow> (\<forall>c \<in> set r. byteColour c))"

definition sampleSomeInv :: "nat list \<Rightarrow> nat \<Rightarrow> nat \<Rightarrow> nat rgb list \<Rightarrow> nat rgb list \<Rightarrow> bool" where
  "sampleSomeInv d stride i acc r =
     (acc \<noteq> [] \<or> (\<exists>j. i + 4 * stride * j < length d \<and> \<not> alphaBelow20 d (i + 4 * stride * j))
        \<longrightarrow> r \<noteq> [])"

definition pixelAt :: "nat list \<Rightarrow> nat \<Rightarrow> nat rgb" where
  "pixelAt d b = \<lparr>rgbR = d ! b, rgbG = d ! (b + 1), rgbB = d ! (b + 2)\<rparr>"

definition quantizedPixel :: "nat list \<Rightarrow> nat rgb list \<Rightarrow> nat \<Rightarrow> nat list" where
  "quantizedPixel d cs b =
     (if alphaBelow20 d b then [0, 0, 0, 0]
      else (let c = cs ! nearestCentroidIndex (pixelAt d b) cs
            in [min 255 (rgbR c), min 255 (rgbG c), min 255 (rgbB c), 255]))"

definition coverage :: "nat list \<Rightarrow> nat rgb list \<Rightarrow> nat \<Rightarrow> nat" where
  "coverage d cs idx =
     length (filter (\<lambda>p. \<not> alphaBelow20 d (4 * p) \<and> nearestCentroidIndex (pixelAt d (4 * p)) cs = idx)
                    [0..<length d div 4])"

definition sampleNoneInv :: "nat list \<Rightarrow> nat \<Rightarrow> nat \<Rightarrow> nat rgb list \<Rightarrow> nat rgb list \<Rightarrow> bool" where
  "sampleNoneInv d stride i acc r =
     ((\<forall>j. i + 4 * stride * j < length d \<longrightarrow> alphaBelow20 d (i + 4 * stride * j)) \<longrightarrow> r = acc)"

definition someSampleOpaque :: "ImageData \<Rightarrow> QuantizeOptions \<Rightarrow> bool" where
  "someSampleOpaque img opts =
     (\<exists>j. 4 * strideOf opts * j < length (data img) \<and>
          20 \<le> data img ! (4 * strideOf opts * j + 3))"

definition paletteEntry :: "nat rgb list \<Rightarrow> nat list \<Rightarrow> nat \<Rightarrow> ReducedColor \<Rightarrow> bool" where
  "paletteEntry pal cnts idx c =
     (idx < length pal \<and> hex c = rgbToHex (pal ! idx) \<and> count c = cnts ! idx)"

text \<open>A call of the sampling loop that returns is not stuck at stride 0 inside the raster.\<close>

definition sampleAdvanceInv :: "nat list \<Rightarrow> nat \<Rightarrow> nat \<Rightarrow> nat rgb list \<Rightarrow> nat rgb list \<Rightarrow> bool" where
  "sampleAdvanceInv d stride i acc r = (\<not> (stride = 0 \<and> i < length d))"

text \<open>Rasters used to evaluate the quantizer.\<close>

definition transparentImage :: ImageData where
  "transparentImage = \<lparr>width = 2, height = 1, data = [10, 20, 30, 5, 255, 0, 0, 19]\<rparr>"

definition unsampledImage :: ImageData where
  "unsampledImage = \<lparr>width = 2, height = 1, data = [10, 20, 30, 5, 255, 0, 0, 200]\<rparr>"

definition threePixelImage :: ImageData where
  "threePixelImage = \<lparr>width = 3, height = 1,
     data = [250, 0, 0, 255, 0, 0, 9, 0, 254, 2, 0, 255]\<rparr>"

definition sixPixelImage :: ImageData where
  "sixPixelImage = \<lparr>width = 6, height = 1,
     data = [250, 0, 0, 255, 0, 0, 250, 255, 0, 0, 251, 255, 7, 7, 7, 0,
             0, 0, 249, 255, 0, 0, 250, 255]\<rparr>"

definition defaultOptions :: QuantizeOptions where
  "defaultOptions = \<lparr>optK = 2, maxIters = None, sampleStride = None\<rparr>"

definition everyPixel :: QuantizeOptions where
  "everyPixel = \<lparr>optK = 2, maxIters = Some 12, sampleStride = Some 1\<rparr>"

section \<open>removeSpecks (core/imaging/speckRemoval) and its palette index map\<close>

text \<open>
  The palette index map is an \<^verbatim>\<open>Int16Array\<close> (a store wraps to sixteen signed bits), the
  visited marks a \<^verbatim>\<open>Uint8Array\<close>, points are pairs of integers, and \<^verbatim>\<open>borderCounts\<close>
  is a \<^verbatim>\<open>Map\<close>, which iterates in insertion order: an association list in which a
  new key goes to the end and an existing key keeps its place. The flood fill is a
  \<^verbatim>\<open>while\<close> loop on a stack. \<^verbatim>\<open>paletteRgb[replacement]\<close> would be undefined for an
  index past the palette, and reading its field would throw a TypeError. The source's
  \<^verbatim>\<open>idx(x, y, w)\<close> is \<open>idxOf\<close> here.
\<close>

datatype error = TypeError

definition toInt16 :: "int \<Rightarrow> int" where
  "toInt16 v = (v + 32768) mod 65536 - 32768"

fun pixelToPaletteIndexFrom :: "nat \<Rightarrow> nat list \<Rightarrow> nat \<Rightarrow> jsnum rgb list \<Rightarrow> int" where
  "pixelToPaletteIndexFrom i d p [] = - 1"
| "pixelToPaletteIndexFrom i d p (c # paletteRgb) =
     (if byteIs d p (rgbR c) \<and> byteIs d (p + 1) (rgbG c) \<and> byteIs d (p + 2) (rgbB c)
      then int i else pixelToPaletteIndexFrom (Suc i) d p paletteRgb)"

definition pixelToPaletteIndex :: "nat list \<Rightarrow> nat \<Rightarrow> jsnum rgb list \<Rightarrow> int" where
  "pixelToPaletteIndex d p paletteRgb = pixelToPaletteIndexFrom 0 d p paletteRgb"

definition buildPaletteRgb :: "string list \<Rightarrow> jsnum rgb list" where
  "buildPaletteRgb paletteHex = map hexToRgb paletteHex"

definition buildIndexMap :: "nat \<Rightarrow> nat \<Rightarrow> nat list \<Rightarrow> jsnum rgb list \<Rightarrow> int list" where
  "buildIndexMap w h d paletteRgb =
     fold (\<lambda>y m. fold (\<lambda>x m.
                   let p = (y * w + x) * 4
                   in if alphaBelow20 d p then m[y * w + x := - 1]
                      else m[y * w + x := toInt16 (pixelToPaletteIndex d p paletteRgb)])
                 [0..<w] m)
          [0..<h] (replicate (w * h) 0)"

definition neighbors4 :: "int \<times> int \<Rightarrow> (int \<times> int) list" where
  "neighbors4 pt = (case pt of (x, y) \<Rightarrow> [(x + 1, y), (x - 1, y), (x, y + 1), (x, y - 1)])"

definition inBounds :: "nat \<Rightarrow> nat \<Rightarrow> int \<times> int \<Rightarrow> bool" where
  "inBounds w h n = (case n of (nx, ny) \<Rightarrow> \<not> (nx < 0 \<or> ny < 0 \<or> nx \<ge> int w \<or> ny \<ge> int h))"

definition idxOf :: "int \<times> int \<Rightarrow> nat \<Rightarrow> nat" where
  "idxOf pt w = (case pt of (x, y) \<Rightarrow> nat y * w + nat x)"

definition visitNeighbor ::
  "nat \<Rightarrow> nat \<Rightarrow> int list \<Rightarrow> int \<Rightarrow> int \<times> int \<Rightarrow>
   (int \<times> int) list \<times> nat list \<times> (int \<times> int) list \<Rightarrow>
   (int \<times> int) list \<times> nat list \<times> (int \<times> int) list" where
  "visitNeighbor w h indexMap colorIndex n st =
     (case st of (queue, visited, cluster) \<Rightarrow>
        if \<not> inBounds w h n then st
        else (let ni = idxOf n w
              in if visited ! ni \<noteq> 0 then st
                 else if indexMap ! ni = colorIndex
                 then (queue @ [n], visited[ni := 1], cluster @ [n])
                 else (queue, visited[ni := 1], cluster)))"

partial_function (option) floodFill ::
  "nat \<Rightarrow> nat \<Rightarrow> int list \<Rightarrow> int \<Rightarrow> (int \<times> int) list \<times> nat list \<times> (int \<times> int) list \<Rightarrow>
   (nat list \<times> (int \<times> int) list) option" where
  "floodFill w h indexMap colorIndex st =
     (case st of (queue, visited, cluster) \<Rightarrow>
        if queue = [] then Some (visited, cluster)
        else floodFill w h indexMap colorIndex
               (fold (visitNeighbor w h indexMap colorIndex) (neighbors4 (last queue))
                     (butlast queue, visited, cluster)))"

declare floodFill.simps [code]

fun mapSet :: "int \<Rightarrow> nat \<Rightarrow> (int \<times> nat) list \<Rightarrow> (int \<times> nat) list" where
  "mapSet c v [] = [(c, v)]"
| "mapSet c v ((c', v') # m) = (if c' = c then (c, v) # m else (c', v') # mapSet c v m)"

definition mapGet :: "(int \<times> nat) list \<Rightarrow> int \<Rightarrow> nat option" where
  "mapGet m c = map_of m c"

definition tallyBorder ::
  "nat \<Rightarrow> nat \<Rightarrow> int list \<Rightarrow> int \<Rightarrow> (int \<times> int) list \<Rightarrow> (int \<times> nat) list" where
  "tallyBorder w h indexMap colorIndex cluster =
     fold (\<lambda>pt borderCounts.
             fold (\<lambda>n borderCounts.
                     if \<not> inBounds w h n then borderCounts
                     else (let c = indexMap ! idxOf n w
                           in if c < 0 \<or> c = colorIndex then borderCounts
                              else mapSet c ((case mapGet borderCounts c of None \<Rightarrow> 0 | Some v \<Rightarrow> v) + 1)
                                     borderCounts))
                  (neighbors4 pt) borderCounts)
          cluster []"

definition chooseReplacement :: "int \<Rightarrow> (int \<times> nat) list \<Rightarrow> int" where
  "chooseReplacement colorIndex borderCounts =
     fst (fold (\<lambda>(c, cnt) (replacement, best).
                  if int cnt > best then (c, int cnt) else (replacement, best))
               borderCounts (colorIndex, - 1))"

definition repaint :: "nat \<Rightarrow> jsnum rgb \<Rightarrow> (int \<times> int) list \<Rightarrow> nat list \<times> nat \<Rightarrow> nat list \<times> nat" where
  "repaint w repRgb cluster st =
     fold (\<lambda>pt (d, removedPixels).
             let p = idxOf pt w * 4
             in (d[p := clampStore (rgbR repRgb), p + 1 := clampStore (rgbG repRgb),
                   p + 2 := clampStore (rgbB repRgb), p + 3 := 255],
                 removedPixels + 1))
          cluster st"

definition speckCell ::
  "nat \<Rightarrow> nat \<Rightarrow> int list \<Rightarrow> jsnum rgb list \<Rightarrow> int \<Rightarrow> nat \<Rightarrow> nat \<Rightarrow>
   nat list \<times> nat list \<times> nat \<Rightarrow> (error + nat list \<times> nat list \<times> nat) option" where
  "speckCell w h indexMap paletteRgb minClusterSize x y st =
     (case st of (d, visited, removedPixels) \<Rightarrow>
        (let start = y * w + x
         in if visited ! start \<noteq> 0 then Some (Inr st)
            else (let colorIndex = indexMap ! start;
                      visited1 = visited[start := 1]
                  in if colorIndex < 0 then Some (Inr (d, visited1, removedPixels))
                     else (case floodFill w h indexMap colorIndex
                                  ([(int x, int y)], visited1, [(int x, int y)]) of
                             None \<Rightarrow> None
                           | Some (visited2, cluster) \<Rightarrow>
                              if int (length cluster) \<ge> minClusterSize
                              then Some (Inr (d, visited2, removedPixels))
                              else (let borderCounts = tallyBorder w h indexMap colorIndex cluster;
                                        replacement = chooseReplacement colorIndex borderCounts
                                    in case readAt paletteRgb (nat replacement) of
                                         None \<Rightarrow> Some (Inl TypeError)
                                       | Some repRgb \<Rightarrow>
                                          (case repaint w repRgb cluster (d, removedPixels) of
                                             (d', removedPixels') \<Rightarrow>
                                               Some (Inr (d', visited2, removedPixels'))))))))"

definition removeSpecks ::
  "ImageData \<Rightarrow> string list \<Rightarrow> int \<Rightarrow> (error + ImageData \<times> nat) option" where
  "removeSpecks imageData paletteHex minClusterSize =
     (let w = width imageData; h = height imageData; d = data imageData;
          paletteRgb = buildPaletteRgb paletteHex;
          indexMap = buildIndexMap w h d paletteRgb;
          final = fold (\<lambda>y st. fold (\<lambda>x st.
                           case st of
                             Some (Inr s) \<Rightarrow> speckCell w h indexMap paletteRgb minClusterSize x y s
                           | _ \<Rightarrow> st)
                         [0..<w] st)
                       [0..<h] (Some (Inr (d, replicate (w * h) 0, 0)))
      in case final of
           None \<Rightarrow> None
         | Some (Inl e) \<Rightarrow> Some (Inl e)
         | Some (Inr (d', visited, removedPixels)) \<Rightarrow>
             Some (Inr (imageData\<lparr>data := d'\<rparr>, removedPixels)))"

text \<open>Rasters used to evaluate removeSpecks.\<close>

definition onePixelImage :: ImageData where
  "onePixelImage = \<lparr>width = 1, height = 1, data = [255, 0, 0, 255]\<rparr>"

definition fadedPixelImage :: ImageData where
  "fadedPixelImage = \<lparr>width = 1, height = 1, data = [255, 0, 0, 100]\<rparr>"

definition speckImage :: ImageData where
  "speckImage = \<lparr>width = 3, height = 2,
     data = [255, 0, 0, 255,  0, 0, 255, 255,  0, 0, 255, 255,
             0, 0, 255, 255,  0, 0, 255, 255,  0, 0, 0, 0]\<rparr>"

section \<open>Nested row-major fill loops\<close>

lemma fill_row_length:
  "length (fold (\<lambda>x dd. dd[r + x := g x]) [0..<n] dd) = length dd"
  by (induction n) simp_all

lemma fill_row_nth:
  "fold (\<lambda>x dd. dd[r + x := g x]) [0..<n] dd ! j =
     (if r \<le> j \<and> j < r + n \<and> j < length dd then g (j - r) else dd ! j)"
proof (induction n)
  case 0
  show ?case by auto
next
  case (Suc n)
  show ?case
  proof (cases "j = r + n")
    case True
    then show ?thesis using Suc by (simp add: fill_row_length list_update_beyond)
  next
    case False
    then show ?thesis using Suc by (auto simp: fill_row_length)
  qed
qed

lemma fill_grid_length:
  "length (fold (\<lambda>y dd. fold (\<lambda>x dd. dd[y * W + x := f x y]) [0..<W] dd) [0..<H] dd)
     = length dd"
  by (induction H) (simp_all add: fill_row_length)

lemma fill_grid_nth:
  assumes "x < W" and "y < H" and "y * W + x < length dd"
  shows "fold (\<lambda>y dd. fold (\<lambda>x dd. dd[y * W + x := f x y]) [0..<W] dd) [0..<H] dd
           ! (y * W + x) = f x y"
  using assms(2,3)
proof (induction H)
  case 0
  then show ?case by simp
next
  case (Suc H)
  let ?prev = "fold (\<lambda>y dd. fold (\<lambda>x dd. dd[y * W + x := f x y]) [0..<W] dd) [0..<H] dd"
  have len: "length ?prev = length dd" by (rule fill_grid_length)
  show ?case
  proof (cases "y = H")
    case True
    with assms(1) Suc.prems show ?thesis
      by (simp add: fill_row_nth len)
  next
    case False
    with Suc.prems have yH: "y < H" by simp
    then have "Suc y \<le> H" by simp
    then have "Suc y * W \<le> H * W" by (rule mult_le_mono1)
    with assms(1) have "y * W + x < H * W" by simp
    with Suc.IH [OF yH Suc.prems(2)] show ?thesis
      by (simp add: fill_row_nth len)
  qed
qed

lemma fill_index_nth:
  "fold (\<lambda>i xs. xs[i := g i]) [0..<n] xs ! j = (if j < n \<and> j < length xs then g j else xs ! j)"
  using fill_row_nth [where r = 0 and g = g and n = n and dd = xs and j = j] by simp

lemma fill_index_length: "length (fold (\<lambda>i xs. xs[i := g i]) [0..<n] xs) = length xs"
  using fill_row_length [where r = 0 and g = g and n = n and dd = xs] by simp

section \<open>Properties of generateDrawdown\<close>

lemma generateDrawdown_length:
  "length (generateDrawdown m) = (warpCount m * repeatWarp m) * (weftCount m * repeatWeft m)"
  by (simp add: generateDrawdown_def Let_def fill_grid_length)

lemma generateDrawdown_nth:
  assumes "x < warpCount m * repeatWarp m" and "y < weftCount m * repeatWeft m"
  shows "generateDrawdown m ! (y * (warpCount m * repeatWarp m) + x) = drawdownCell m x y"
proof -
  let ?W = "warpCount m * repeatWarp m" and ?H = "weftCount m * repeatWeft m"
  from assms(2) have "Suc y * ?W \<le> ?H * ?W" by (intro mult_le_mono1) simp
  with assms(1) have "y * ?W + x < ?W * ?H" by (simp add: mult.commute)
  with assms show ?thesis
    by (simp add: generateDrawdown_def Let_def fill_grid_nth)
qed

lemma liftBit_in_range:
  assumes "bx < length thr" and "by' < length trd" and "thr ! bx * tc + trd ! by' < length tie"
  shows "liftBit thr trd tie tc bx by' = (if tie ! (thr ! bx * tc + trd ! by') \<noteq> 0 then 1 else 0)"
  using assms by (simp add: liftBit_def readAt_def)

text \<open>
  C1. With repeat {1,1} and both mirror flags off, on a draft of the declared shape
  (threading of length warpCount, treadling of length weftCount, tie-up of length
  harnessCount * treadleCount) whose threading and treadling entries are in range,
  generateDrawdown returns warpCount * weftCount cells, and the cell at (x, y), stored at
  index y * warpCount + x, is 1 if tieUp[threading[x] * treadleCount + treadling[y]] is
  nonzero and 0 otherwise.
\<close>

theorem generateDrawdown_plain_repeat:
  assumes rep: "repeat m = Some \<lparr>warp = 1, weft = 1\<rparr>"
    and sym: "symmetry m = Some \<lparr>warpMirror = False, weftMirror = False\<rparr>"
    and lthr: "length (threading m) = warpCount m"
    and ltrd: "length (treadling m) = weftCount m"
    and ltie: "length (tieUp m) = harnessCount m * treadleCount m"
    and thr: "\<forall>h \<in> set (threading m). h < harnessCount m"
    and trd: "\<forall>t \<in> set (treadling m). t < treadleCount m"
  shows "length (generateDrawdown m) = warpCount m * weftCount m \<and>
         (\<forall>x < warpCount m. \<forall>y < weftCount m.
            generateDrawdown m ! (y * warpCount m + x) =
              (if tieUp m ! (threading m ! x * treadleCount m + treadling m ! y) \<noteq> 0
               then 1 else 0))"
proof (intro conjI allI impI)
  from rep show "length (generateDrawdown m) = warpCount m * weftCount m"
    by (simp add: generateDrawdown_length repeatWarp_def repeatWeft_def)
next
  fix x y
  assume x: "x < warpCount m" and y: "y < weftCount m"
  from rep have rw: "repeatWarp m = 1" "repeatWeft m = 1"
    by (simp_all add: repeatWarp_def repeatWeft_def)
  from sym have nomirror: "\<not> hasWarpMirror m" "\<not> hasWeftMirror m"
    by (simp_all add: hasWarpMirror_def hasWeftMirror_def)
  from x lthr thr have h: "threading m ! x < harnessCount m" by simp
  from y ltrd trd have t: "treadling m ! y < treadleCount m" by simp
  from h have "Suc (threading m ! x) * treadleCount m \<le> harnessCount m * treadleCount m"
    by (intro mult_le_mono1) simp
  with t ltie have idx: "threading m ! x * treadleCount m + treadling m ! y < length (tieUp m)"
    by simp
  have "generateDrawdown m ! (y * warpCount m + x) = drawdownCell m x y"
    using generateDrawdown_nth [of x m y] x y rw by simp
  also have "\<dots> = liftBit (threading m) (treadling m) (tieUp m) (treadleCount m) x y"
    using x y nomirror by (simp add: drawdownCell_def)
  also have "\<dots> = (if tieUp m ! (threading m ! x * treadleCount m + treadling m ! y) \<noteq> 0
                    then 1 else 0)"
    using x y lthr ltrd idx by (simp add: liftBit_in_range)
  finally show "generateDrawdown m ! (y * warpCount m + x) =
      (if tieUp m ! (threading m ! x * treadleCount m + treadling m ! y) \<noteq> 0 then 1 else 0)" .
qed

theorem generateDrawdown_plain_repeat_witness:
  "length (generateDrawdown plainDraft) = 2 * 2 \<and>
   generateDrawdown plainDraft ! (1 * 2 + 0) = 0 \<and>
   generateDrawdown plainDraft ! (1 * 2 + 1) = 1"
proof -
  have "length (generateDrawdown plainDraft) = warpCount plainDraft * weftCount plainDraft \<and>
         (\<forall>x < warpCount plainDraft. \<forall>y < weftCount plainDraft.
            generateDrawdown plainDraft ! (y * warpCount plainDraft + x) =
              (if tieUp plainDraft ! (threading plainDraft ! x * treadleCount plainDraft
                    + treadling plainDraft ! y) \<noteq> 0
               then 1 else 0))"
    by (rule generateDrawdown_plain_repeat) (simp_all add: plainDraft_def)
  then have len: "length (generateDrawdown plainDraft) = 2 * 2"
    and cell: "\<And>x y. x < 2 \<Longrightarrow> y < 2 \<Longrightarrow> generateDrawdown plainDraft ! (y * 2 + x) =
        (if [1, 0, 0, 1 :: nat] ! ([0, 1] ! x * 2 + [0, 1] ! y) \<noteq> 0 then 1 else 0)"
    by (simp_all add: plainDraft_def)
  from cell [of 0 1] cell [of 1 1] len show ?thesis by simp
qed

text \<open>
  C2, as stated: with warpMirror on and repeat.warp = 2, cell (warpCount + i, y) equals
  cell (2 * warpCount - 1 - i, y). Both cells lie in the mirrored second tile, so the
  statement asks the tile to be a palindrome. On the draft with threading [0, 1], one
  treadle and tie-up [1, 0] the output row is 1 0 0 1, and for i = 0 the cells at
  x = 2 and x = 3 differ.
\<close>

theorem warpMirror_second_tile_counterexample:
  "hasWarpMirror mirrorDraft \<and> repeatWarp mirrorDraft = 2 \<and> warpCount mirrorDraft = 2 \<and>
   threading mirrorDraft = [0, 1] \<and> harnessCount mirrorDraft = 2 \<and>
   treadling mirrorDraft = [0] \<and> treadleCount mirrorDraft = 1 \<and>
   generateDrawdown mirrorDraft = [1, 0, 0, 1] \<and>
   generateDrawdown mirrorDraft ! (0 * (2 * 2) + (2 + 0)) \<noteq>
   generateDrawdown mirrorDraft ! (0 * (2 * 2) + (2 * 2 - 1 - 0))"
  by code_simp

text \<open>
  C2, amended: with warpMirror on and repeat.warp = 2, the output is symmetric about the
  boundary between the two tiles: for every i < warpCount and every output row y, cell
  (warpCount + i, y) equals cell (warpCount - 1 - i, y).
\<close>

theorem warpMirror_tile_boundary:
  assumes mir: "hasWarpMirror m" and rep: "repeatWarp m = 2"
    and i: "i < warpCount m" and y: "y < weftCount m * repeatWeft m"
  shows "generateDrawdown m ! (y * (2 * warpCount m) + (warpCount m + i)) =
         generateDrawdown m ! (y * (2 * warpCount m) + (warpCount m - 1 - i))"
proof -
  let ?w = "warpCount m"
  have W: "?w * repeatWarp m = 2 * ?w" using rep by simp
  have left: "generateDrawdown m ! (y * (2 * ?w) + (?w + i)) = drawdownCell m (?w + i) y"
    using generateDrawdown_nth [of "?w + i" m y] i y W by simp
  have right: "generateDrawdown m ! (y * (2 * ?w) + (?w - 1 - i)) = drawdownCell m (?w - 1 - i) y"
    using generateDrawdown_nth [of "?w - 1 - i" m y] i y W by simp
  have d1: "(?w + i) div ?w = 1" and m1: "(?w + i) mod ?w = i"
    using i div_add_self1 [of ?w i] by simp_all
  have d2: "(?w - 1 - i) div ?w = 0" and m2: "(?w - 1 - i) mod ?w = ?w - 1 - i"
    using i by simp_all
  have "drawdownCell m (?w + i) y = drawdownCell m (?w - 1 - i) y"
    unfolding drawdownCell_def Let_def d1 d2 m1 m2 using mir by simp
  with left right show ?thesis by simp
qed

theorem warpMirror_tile_boundary_witness:
  "generateDrawdown mirrorDraft ! (0 * (2 * 2) + (2 + 0)) =
   generateDrawdown mirrorDraft ! (0 * (2 * 2) + (2 - 1 - 0))"
proof -
  have "generateDrawdown mirrorDraft
          ! (0 * (2 * warpCount mirrorDraft) + (warpCount mirrorDraft + 0)) =
        generateDrawdown mirrorDraft
          ! (0 * (2 * warpCount mirrorDraft) + (warpCount mirrorDraft - 1 - 0))"
    by (rule warpMirror_tile_boundary)
       (simp_all add: mirrorDraft_def hasWarpMirror_def repeatWarp_def repeatWeft_def)
  then show ?thesis by (simp add: mirrorDraft_def)
qed

section \<open>Plain weave on a straight draw\<close>

lemma applyPlainWeave_fields:
  "harnessCount (applyPlainWeave m) = harnessCount m"
  "treadleCount (applyPlainWeave m) = treadleCount m"
  "warpCount (applyPlainWeave m) = warpCount m"
  "weftCount (applyPlainWeave m) = weftCount m"
  "threading (applyPlainWeave m) = threading m"
  "treadling (applyPlainWeave m) = treadling m"
  "repeat (applyPlainWeave m) = repeat m"
  "symmetry (applyPlainWeave m) = symmetry m"
  by (simp_all add: applyPlainWeave_def Let_def)

lemma applyStraightDraw_fields:
  "harnessCount (applyStraightDraw m) = harnessCount m"
  "treadleCount (applyStraightDraw m) = treadleCount m"
  "warpCount (applyStraightDraw m) = warpCount m"
  "weftCount (applyStraightDraw m) = weftCount m"
  "tieUp (applyStraightDraw m) = tieUp m"
  "repeat (applyStraightDraw m) = repeat m"
  "symmetry (applyStraightDraw m) = symmetry m"
  by (simp_all add: applyStraightDraw_def Let_def)

lemma applyStraightDraw_threading:
  "length (threading (applyStraightDraw m)) = length (threading m)"
  "i < warpCount m \<Longrightarrow> i < length (threading m) \<Longrightarrow>
     threading (applyStraightDraw m) ! i = jsModStore i (harnessCount m)"
  by (simp_all add: applyStraightDraw_def Let_def fill_index_nth fill_index_length)

lemma applyStraightDraw_treadling:
  "length (treadling (applyStraightDraw m)) = length (treadling m)"
  "i < weftCount m \<Longrightarrow> i < length (treadling m) \<Longrightarrow>
     treadling (applyStraightDraw m) ! i = jsModStore i (treadleCount m)"
  by (simp_all add: applyStraightDraw_def Let_def fill_index_nth fill_index_length)

lemma applyPlainWeave_two_shafts:
  assumes "harnessCount m = 2" and "treadleCount m = 2"
  shows "tieUp (applyPlainWeave m) = [1, 0, 0, 1]"
proof -
  have u: "[0..<2] = [0, 1]" by (simp add: upt_conv_Cons)
  have r: "replicate 4 (0::nat) = [0, 0, 0, 0]" by (simp add: numeral_eq_Suc)
  show ?thesis using assms by (simp add: applyPlainWeave_def Let_def u r)
qed

lemma checker_bit:
  "(if [1, 0, 0, 1 :: nat] ! (x mod 2 * 2 + y mod 2) \<noteq> 0 then 1 else 0 :: nat)
     = (if x mod 2 = y mod 2 then 1 else 0)"
proof -
  have "x mod 2 = 0 \<or> x mod 2 = 1" and "y mod 2 = 0 \<or> y mod 2 = 1" by auto
  then show ?thesis by (auto simp: numeral_eq_Suc)
qed

lemma plain_straight_cell:
  assumes hc: "harnessCount m = 2" and tc: "treadleCount m = 2"
    and rep: "repeat m = Some \<lparr>warp = 1, weft = 1\<rparr>"
    and lthr: "length (threading m) = warpCount m"
    and ltrd: "length (treadling m) = weftCount m"
    and x: "x < warpCount m" and y: "y < weftCount m"
  shows "generateDrawdown (applyStraightDraw (applyPlainWeave m)) ! (y * warpCount m + x)
           = (if x mod 2 = y mod 2 then 1 else 0)"
proof -
  let ?m = "applyStraightDraw (applyPlainWeave m)"
  have rw: "repeatWarp ?m = 1" "repeatWeft ?m = 1"
    using rep
    by (simp_all add: repeatWarp_def repeatWeft_def applyStraightDraw_fields
        applyPlainWeave_fields)
  have wc: "warpCount ?m = warpCount m" and wf: "weftCount ?m = weftCount m"
    by (simp_all add: applyStraightDraw_fields applyPlainWeave_fields)
  have tie: "tieUp ?m = [1, 0, 0, 1]"
    using applyPlainWeave_two_shafts [OF hc tc] by (simp add: applyStraightDraw_fields)
  have thr: "readAt (threading ?m) x = Some (x mod 2)"
    using x lthr hc
    by (simp add: readAt_def applyStraightDraw_threading applyPlainWeave_fields jsModStore_def
        toUint8_def)
  have trd: "readAt (treadling ?m) y = Some (y mod 2)"
    using y ltrd tc
    by (simp add: readAt_def applyStraightDraw_treadling applyPlainWeave_fields jsModStore_def
        toUint8_def)
  have idx: "x mod 2 * 2 + y mod 2 < 4"
  proof -
    have "x mod 2 \<le> 1" and "y mod 2 \<le> 1" by simp_all
    then show ?thesis by linarith
  qed
  have d0: "x div warpCount m = 0" "y div weftCount m = 0" using x y by simp_all
  have "generateDrawdown ?m ! (y * warpCount m + x) = drawdownCell ?m x y"
    using generateDrawdown_nth [of x ?m y] x y rw wc wf by simp
  also have "\<dots> = liftBit (threading ?m) (treadling ?m) (tieUp ?m) (treadleCount ?m) x y"
    using x y by (simp add: drawdownCell_def Let_def wc wf d0)
  also have "\<dots> = (if [1, 0, 0, 1 :: nat] ! (x mod 2 * 2 + y mod 2) \<noteq> 0 then 1 else 0)"
  proof -
    have "readAt (tieUp ?m) (x mod 2 * 2 + y mod 2) = Some ([1, 0, 0, 1] ! (x mod 2 * 2 + y mod 2))"
      using idx by (simp add: tie readAt_def)
    moreover have "treadleCount ?m = 2"
      using tc by (simp add: applyStraightDraw_fields applyPlainWeave_fields)
    ultimately show ?thesis by (simp add: liftBit_def thr trd)
  qed
  also have "\<dots> = (if x mod 2 = y mod 2 then 1 else 0)" by (rule checker_bit)
  finally show ?thesis .
qed

text \<open>
  C7, as stated: for every model, plain weave and straight draw give a checkerboard of
  period 2. With four harnesses and four treadles the tie-up is the 4 x 4 diagonal and
  the drawdown is the diagonal x mod 4 = y mod 4: in row 0 the cells at x = 0 and x = 2
  differ, and the adjacent cells at x = 1 and x = 2 are equal.
\<close>

theorem plain_weave_checkerboard_counterexample:
  "harnessCount fourShaftDraft = 4 \<and> treadleCount fourShaftDraft = 4 \<and>
   repeat fourShaftDraft = Some \<lparr>warp = 1, weft = 1\<rparr> \<and>
   generateDrawdown (applyStraightDraw (applyPlainWeave fourShaftDraft)) ! (0 * 4 + 0) = 1 \<and>
   generateDrawdown (applyStraightDraw (applyPlainWeave fourShaftDraft)) ! (0 * 4 + 1) = 0 \<and>
   generateDrawdown (applyStraightDraw (applyPlainWeave fourShaftDraft)) ! (0 * 4 + 2) = 0"
  by code_simp

text \<open>
  C7, amended: for every model with harnessCount = treadleCount = 2 (threading and
  treadling of the declared lengths), the plain-weave tie-up and the straight draw
  followed by generateDrawdown with repeat {1,1} give a checkerboard of period 2: cell
  (x, y) is 1 exactly when x and y have the same parity, so it equals cell (x + 2, y) and
  cell (x, y + 2) and differs from cell (x + 1, y) and cell (x, y + 1), wherever those
  cells lie in the grid.
\<close>

theorem plain_weave_checkerboard:
  assumes hc: "harnessCount m = 2" and tc: "treadleCount m = 2"
    and rep: "repeat m = Some \<lparr>warp = 1, weft = 1\<rparr>"
    and lthr: "length (threading m) = warpCount m"
    and ltrd: "length (treadling m) = weftCount m"
    and x: "x < warpCount m" and y: "y < weftCount m"
  shows "generateDrawdown (applyStraightDraw (applyPlainWeave m)) ! (y * warpCount m + x)
           = (if x mod 2 = y mod 2 then 1 else 0) \<and>
         (x + 2 < warpCount m \<longrightarrow>
            generateDrawdown (applyStraightDraw (applyPlainWeave m)) ! (y * warpCount m + x) =
            generateDrawdown (applyStraightDraw (applyPlainWeave m))
              ! (y * warpCount m + (x + 2))) \<and>
         (y + 2 < weftCount m \<longrightarrow>
            generateDrawdown (applyStraightDraw (applyPlainWeave m)) ! (y * warpCount m + x) =
            generateDrawdown (applyStraightDraw (applyPlainWeave m))
              ! ((y + 2) * warpCount m + x)) \<and>
         (x + 1 < warpCount m \<longrightarrow>
            generateDrawdown (applyStraightDraw (applyPlainWeave m)) ! (y * warpCount m + x) \<noteq>
            generateDrawdown (applyStraightDraw (applyPlainWeave m))
              ! (y * warpCount m + (x + 1))) \<and>
         (y + 1 < weftCount m \<longrightarrow>
            generateDrawdown (applyStraightDraw (applyPlainWeave m)) ! (y * warpCount m + x) \<noteq>
            generateDrawdown (applyStraightDraw (applyPlainWeave m))
              ! ((y + 1) * warpCount m + x))"
proof -
  note cell = plain_straight_cell [OF hc tc rep lthr ltrd]
  have p2: "(x + 2) mod 2 = x mod 2" "(y + 2) mod 2 = y mod 2" by simp_all
  have p1: "(x + 1) mod 2 \<noteq> x mod 2" "(y + 1) mod 2 \<noteq> y mod 2" by presburger+
  show ?thesis
  proof (intro conjI impI)
    show "generateDrawdown (applyStraightDraw (applyPlainWeave m)) ! (y * warpCount m + x)
           = (if x mod 2 = y mod 2 then 1 else 0)"
      using cell [OF x y] .
  next
    assume "x + 2 < warpCount m"
    from cell [OF x y] cell [OF this y] p2
    show "generateDrawdown (applyStraightDraw (applyPlainWeave m)) ! (y * warpCount m + x) =
          generateDrawdown (applyStraightDraw (applyPlainWeave m))
            ! (y * warpCount m + (x + 2))"
      by simp
  next
    assume "y + 2 < weftCount m"
    from cell [OF x y] cell [OF x this] p2
    show "generateDrawdown (applyStraightDraw (applyPlainWeave m)) ! (y * warpCount m + x) =
          generateDrawdown (applyStraightDraw (applyPlainWeave m))
            ! ((y + 2) * warpCount m + x)"
      by simp
  next
    assume "x + 1 < warpCount m"
    from cell [OF x y] cell [OF this y] p1
    show "generateDrawdown (applyStraightDraw (applyPlainWeave m)) ! (y * warpCount m + x) \<noteq>
          generateDrawdown (applyStraightDraw (applyPlainWeave m))
            ! (y * warpCount m + (x + 1))"
      by (simp split: if_splits)
  next
    assume "y + 1 < weftCount m"
    from cell [OF x y] cell [OF x this] p1
    show "generateDrawdown (applyStraightDraw (applyPlainWeave m)) ! (y * warpCount m + x) \<noteq>
          generateDrawdown (applyStraightDraw (applyPlainWeave m))
            ! ((y + 1) * warpCount m + x)"
      by (simp split: if_splits)
  qed
qed

theorem plain_weave_checkerboard_witness:
  "generateDrawdown (applyStraightDraw (applyPlainWeave plainDraft)) ! (0 * 2 + 0) = 1 \<and>
   generateDrawdown (applyStraightDraw (applyPlainWeave plainDraft)) ! (0 * 2 + 0) \<noteq>
   generateDrawdown (applyStraightDraw (applyPlainWeave plainDraft)) ! (0 * 2 + (0 + 1)) \<and>
   generateDrawdown (applyStraightDraw (applyPlainWeave plainDraft)) ! (0 * 2 + 0) \<noteq>
   generateDrawdown (applyStraightDraw (applyPlainWeave plainDraft)) ! ((0 + 1) * 2 + 0)"
proof -
  have hc: "harnessCount plainDraft = 2" and tc: "treadleCount plainDraft = 2"
    and rep: "repeat plainDraft = Some \<lparr>warp = 1, weft = 1\<rparr>"
    and lthr: "length (threading plainDraft) = warpCount plainDraft"
    and ltrd: "length (treadling plainDraft) = weftCount plainDraft"
    and x: "0 < warpCount plainDraft" and y: "0 < weftCount plainDraft"
    by (simp_all add: plainDraft_def)
  have wc: "warpCount plainDraft = 2" and wf: "weftCount plainDraft = 2"
    by (simp_all add: plainDraft_def)
  from plain_weave_checkerboard [OF hc tc rep lthr ltrd x y] show ?thesis
    by (simp add: wc wf)
qed

section \<open>Properties of generateJacquardDrawdown\<close>

lemma generateJacquardDrawdown_length:
  "length (generateJacquardDrawdown m) = width m * height m"
  by (simp add: generateJacquardDrawdown_def Let_def fill_grid_length)

lemma generateJacquardDrawdown_nth:
  assumes "x < width m" and "y < height m"
  shows "generateJacquardDrawdown m ! (y * width m + x) = jacquardCell m x y"
proof -
  from assms(2) have "Suc y * width m \<le> height m * width m" by (intro mult_le_mono1) simp
  with assms(1) have "y * width m + x < width m * height m" by (simp add: mult.commute)
  with assms show ?thesis
    by (simp add: generateJacquardDrawdown_def Let_def fill_grid_nth)
qed

text \<open>
  C5. generateJacquardDrawdown is a total function returning the cell array; it has no
  error result. For a cell (x, y) of the grid whose entry g is not the index of a
  structure, the cell is 1. For a cell whose entry g resolves to the structure s (with
  non-empty threading and treadling, so that the two remainders are defined), the cell is
  the truth value of tieUp[threading[x mod threading.length] * treadleCount +
  treadling[y mod treadling.length]] of s: 1 if that entry exists and is nonzero, 0
  otherwise; in particular it equals the entry whenever the entry is a bit.
\<close>

theorem generateJacquardDrawdown_cells:
  assumes x: "x < width m" and y: "y < height m"
    and g: "readAt (grid m) (y * width m + x) = Some g"
  shows "(length (structures m) \<le> g \<longrightarrow>
            generateJacquardDrawdown m ! (y * width m + x) = 1) \<and>
         (g < length (structures m) \<and> threading (structures m ! g) \<noteq> [] \<and>
          treadling (structures m ! g) \<noteq> [] \<longrightarrow>
            generateJacquardDrawdown m ! (y * width m + x) =
              (case readAt (tieUp (structures m ! g))
                      (threading (structures m ! g) ! (x mod length (threading (structures m ! g)))
                         * treadleCount (structures m ! g)
                       + treadling (structures m ! g)
                           ! (y mod length (treadling (structures m ! g)))) of
                 None \<Rightarrow> 0
               | Some lift \<Rightarrow> if lift \<noteq> 0 then 1 else 0) \<and>
            (\<forall>b. readAt (tieUp (structures m ! g))
                      (threading (structures m ! g) ! (x mod length (threading (structures m ! g)))
                         * treadleCount (structures m ! g)
                       + treadling (structures m ! g)
                           ! (y mod length (treadling (structures m ! g)))) = Some b \<and> b \<le> 1
               \<longrightarrow> generateJacquardDrawdown m ! (y * width m + x) = b))"
proof -
  have cell: "generateJacquardDrawdown m ! (y * width m + x) = jacquardCell m x y"
    using x y by (rule generateJacquardDrawdown_nth)
  show ?thesis
  proof (rule conjI; rule impI)
    assume "length (structures m) \<le> g"
    then have "readAt (structures m) g = None" by (simp add: readAt_def)
    then show "generateJacquardDrawdown m ! (y * width m + x) = 1"
      by (simp add: cell jacquardCell_def Let_def g)
  next
    let ?s = "structures m ! g"
    let ?idx = "threading ?s ! (x mod length (threading ?s)) * treadleCount ?s
                  + treadling ?s ! (y mod length (treadling ?s))"
    assume res: "g < length (structures m) \<and> threading ?s \<noteq> [] \<and> treadling ?s \<noteq> []"
    then have s: "readAt (structures m) g = Some ?s" by (simp add: readAt_def)
    from res have thr: "readAt (threading ?s) (x mod length (threading ?s))
        = Some (threading ?s ! (x mod length (threading ?s)))"
      by (simp add: readAt_def)
    from res have trd: "readAt (treadling ?s) (y mod length (treadling ?s))
        = Some (treadling ?s ! (y mod length (treadling ?s)))"
      by (simp add: readAt_def)
    have eq: "jacquardCell m x y =
        (case readAt (tieUp ?s) ?idx of None \<Rightarrow> 0 | Some lift \<Rightarrow> if lift \<noteq> 0 then 1 else 0)"
      by (simp add: jacquardCell_def Let_def g s liftBit_def thr trd)
    show "generateJacquardDrawdown m ! (y * width m + x) =
        (case readAt (tieUp ?s) ?idx of None \<Rightarrow> 0 | Some lift \<Rightarrow> if lift \<noteq> 0 then 1 else 0) \<and>
        (\<forall>b. readAt (tieUp ?s) ?idx = Some b \<and> b \<le> 1
           \<longrightarrow> generateJacquardDrawdown m ! (y * width m + x) = b)"
      unfolding cell eq by auto
  qed
qed

theorem generateJacquardDrawdown_cells_witness:
  "generateJacquardDrawdown smallJacquard ! (0 * 2 + 1) = 1 \<and>
   generateJacquardDrawdown smallJacquard ! (0 * 2 + 0) = 1"
proof -
  have w: "width smallJacquard = 2" and h: "height smallJacquard = 1"
    by (simp_all add: smallJacquard_def)
  have g1: "readAt (grid smallJacquard) (0 * width smallJacquard + 1) = Some 5"
    and g0: "readAt (grid smallJacquard) (0 * width smallJacquard + 0) = Some 0"
    by (simp_all add: smallJacquard_def readAt_def)
  have x1: "1 < width smallJacquard" and x0: "0 < width smallJacquard"
    and y0: "0 < height smallJacquard"
    by (simp_all add: w h)
  from generateJacquardDrawdown_cells [OF x1 y0 g1]
  have a: "generateJacquardDrawdown smallJacquard ! (0 * 2 + 1) = 1"
    by (simp add: smallJacquard_def)
  from generateJacquardDrawdown_cells [OF x0 y0 g0]
  have b: "generateJacquardDrawdown smallJacquard ! (0 * 2 + 0) = 1"
    by (simp add: smallJacquard_def plainStructure_def readAt_def)
  from a b show ?thesis by simp
qed

section \<open>Properties of validateWeave\<close>

lemma boundsLoop_first:
  "boundsLoop arr bound msg n i errors =
     errors @ (if \<exists>j. i \<le> j \<and> j < n \<and> outOfBounds arr bound j
               then [msg (LEAST j. i \<le> j \<and> j < n \<and> outOfBounds arr bound j)] else [])"
proof (induction arr bound msg n i errors rule: boundsLoop.induct)
  case (1 arr bound msg n i errors)
  let ?P = "\<lambda>k j. k \<le> j \<and> j < n \<and> outOfBounds arr bound j"
  show ?case
  proof (cases "i < n")
    case False
    then have "\<not> (\<exists>j. ?P i j)" by auto
    with False show ?thesis by (subst boundsLoop.simps) simp
  next
    case inb: True
    show ?thesis
    proof (cases "outOfBounds arr bound i")
      case True
      with inb have "?P i i" by simp
      then have "(LEAST j. ?P i j) = i" by (rule Least_equality) simp
      moreover have "\<exists>j. ?P i j" using \<open>?P i i\<close> by blast
      ultimately show ?thesis using inb True by (subst boundsLoop.simps) simp
    next
      case False
      have same: "?P i j = ?P (Suc i) j" for j
        using False by (cases "j = i") auto
      have "boundsLoop arr bound msg n i errors = boundsLoop arr bound msg n (Suc i) errors"
        using inb False by (subst boundsLoop.simps) simp
      also have "\<dots> = errors @ (if \<exists>j. ?P (Suc i) j
                                  then [msg (LEAST j. ?P (Suc i) j)] else [])"
        using "1.IH" [OF inb False] .
      finally show ?thesis by (simp only: same)
    qed
  qed
qed

lemma outOfBounds_threading:
  "(i < warpCount m \<and> outOfBounds (threading m) (harnessCount m) i) = threadingViolation m i"
  by (auto simp: outOfBounds_def readAt_def threadingViolation_def)

lemma outOfBounds_treadling:
  "(i < weftCount m \<and> outOfBounds (treadling m) (treadleCount m) i) = treadlingViolation m i"
  by (auto simp: outOfBounds_def readAt_def treadlingViolation_def)

lemma validateWeave_example:
  "validateWeave invalidDraft =
     [''Harness count (2) exceeds loom capacity (1)'',
      ''Threading at position 2 references invalid harness'',
      ''Treadling at position 1 references invalid treadle'']"
  by code_simp

text \<open>
  C9. validateWeave returns its messages in the fixed order harness capacity, treadle
  capacity, warp capacity, weft capacity, empty tie-up, threading range, treadling range;
  each check contributes at most one message, the threading and treadling messages name
  the first (least) offending position only; and the list is empty exactly when no check
  fails. The tie-up check is the code's: some entry equal to 1.
\<close>

theorem validateWeave_order:
  "validateWeave m =
     (if harnessCount m > maxHarness (loom m)
      then [capacityMessage ''Harness'' (harnessCount m) (maxHarness (loom m))] else []) @
     (if treadleCount m > maxTreadle (loom m)
      then [capacityMessage ''Treadle'' (treadleCount m) (maxTreadle (loom m))] else []) @
     (if warpCount m > maxWarp (loom m)
      then [capacityMessage ''Warp'' (warpCount m) (maxWarp (loom m))] else []) @
     (if weftCount m > maxWeft (loom m)
      then [capacityMessage ''Weft'' (weftCount m) (maxWeft (loom m))] else []) @
     (if \<exists>v \<in> set (tieUp m). v = 1 then [] else [emptyTieUpMessage]) @
     (if \<exists>i. threadingViolation m i
      then [threadingMessage (LEAST i. threadingViolation m i)] else []) @
     (if \<exists>i. treadlingViolation m i
      then [treadlingMessage (LEAST i. treadlingViolation m i)] else [])
   \<and> (validateWeave m = [] \<longleftrightarrow>
        harnessCount m \<le> maxHarness (loom m) \<and> treadleCount m \<le> maxTreadle (loom m) \<and>
        warpCount m \<le> maxWarp (loom m) \<and> weftCount m \<le> maxWeft (loom m) \<and>
        (\<exists>v \<in> set (tieUp m). v = 1) \<and>
        (\<forall>i. \<not> threadingViolation m i) \<and> (\<forall>i. \<not> treadlingViolation m i))"
proof -
  have thr: "(\<lambda>j. 0 \<le> j \<and> j < warpCount m \<and> outOfBounds (threading m) (harnessCount m) j)
      = threadingViolation m"
    using outOfBounds_threading [of _ m] by auto
  have trd: "(\<lambda>j. 0 \<le> j \<and> j < weftCount m \<and> outOfBounds (treadling m) (treadleCount m) j)
      = treadlingViolation m"
    using outOfBounds_treadling [of _ m] by auto
  have tie: "list_ex (\<lambda>v. v = 1) (tieUp m) = (\<exists>v \<in> set (tieUp m). v = 1)"
    by (simp add: list_ex_iff)
  have eq: "validateWeave m =
     (if harnessCount m > maxHarness (loom m)
      then [capacityMessage ''Harness'' (harnessCount m) (maxHarness (loom m))] else []) @
     (if treadleCount m > maxTreadle (loom m)
      then [capacityMessage ''Treadle'' (treadleCount m) (maxTreadle (loom m))] else []) @
     (if warpCount m > maxWarp (loom m)
      then [capacityMessage ''Warp'' (warpCount m) (maxWarp (loom m))] else []) @
     (if weftCount m > maxWeft (loom m)
      then [capacityMessage ''Weft'' (weftCount m) (maxWeft (loom m))] else []) @
     (if \<exists>v \<in> set (tieUp m). v = 1 then [] else [emptyTieUpMessage]) @
     (if \<exists>i. threadingViolation m i
      then [threadingMessage (LEAST i. threadingViolation m i)] else []) @
     (if \<exists>i. treadlingViolation m i
      then [treadlingMessage (LEAST i. treadlingViolation m i)] else [])"
    unfolding validateWeave_def Let_def boundsLoop_first thr trd tie by simp
  show ?thesis
  proof (rule conjI)
    show "validateWeave m =
     (if harnessCount m > maxHarness (loom m)
      then [capacityMessage ''Harness'' (harnessCount m) (maxHarness (loom m))] else []) @
     (if treadleCount m > maxTreadle (loom m)
      then [capacityMessage ''Treadle'' (treadleCount m) (maxTreadle (loom m))] else []) @
     (if warpCount m > maxWarp (loom m)
      then [capacityMessage ''Warp'' (warpCount m) (maxWarp (loom m))] else []) @
     (if weftCount m > maxWeft (loom m)
      then [capacityMessage ''Weft'' (weftCount m) (maxWeft (loom m))] else []) @
     (if \<exists>v \<in> set (tieUp m). v = 1 then [] else [emptyTieUpMessage]) @
     (if \<exists>i. threadingViolation m i
      then [threadingMessage (LEAST i. threadingViolation m i)] else []) @
     (if \<exists>i. treadlingViolation m i
      then [treadlingMessage (LEAST i. treadlingViolation m i)] else [])"
      by (rule eq)
  next
    show "validateWeave m = [] \<longleftrightarrow>
        harnessCount m \<le> maxHarness (loom m) \<and> treadleCount m \<le> maxTreadle (loom m) \<and>
        warpCount m \<le> maxWarp (loom m) \<and> weftCount m \<le> maxWeft (loom m) \<and>
        (\<exists>v \<in> set (tieUp m). v = 1) \<and>
        (\<forall>i. \<not> threadingViolation m i) \<and> (\<forall>i. \<not> treadlingViolation m i)"
      unfolding eq by (simp add: not_less)
  qed
qed

theorem validateWeave_order_witness:
  "validateWeave invalidDraft \<noteq> [] \<and> validateWeave plainDraft = []"
proof -
  have bad: "\<not> harnessCount invalidDraft \<le> maxHarness (loom invalidDraft)"
    by (simp add: invalidDraft_def)
  have nothr: "\<not> threadingViolation plainDraft i" for i
  proof -
    have "i < 2 \<Longrightarrow> [0, 1 :: nat] ! i < 2" by (cases i) auto
    then show ?thesis by (auto simp: threadingViolation_def plainDraft_def)
  qed
  have notrd: "\<not> treadlingViolation plainDraft i" for i
  proof -
    have "i < 2 \<Longrightarrow> [0, 1 :: nat] ! i < 2" by (cases i) auto
    then show ?thesis by (auto simp: treadlingViolation_def plainDraft_def)
  qed
  have good: "harnessCount plainDraft \<le> maxHarness (loom plainDraft) \<and>
      treadleCount plainDraft \<le> maxTreadle (loom plainDraft) \<and>
      warpCount plainDraft \<le> maxWarp (loom plainDraft) \<and>
      weftCount plainDraft \<le> maxWeft (loom plainDraft) \<and>
      (\<exists>v \<in> set (tieUp plainDraft). v = 1)"
    by (simp add: plainDraft_def)
  from validateWeave_order [of invalidDraft] bad have "validateWeave invalidDraft \<noteq> []"
    by blast
  moreover from validateWeave_order [of plainDraft] good nothr notrd
  have "validateWeave plainDraft = []" by blast
  ultimately show ?thesis by simp
qed

section \<open>Properties of mergeColorInImage\<close>

lemma base_decomp: "j - j mod 4 = 4 * (j div 4)" for j :: nat
  by (simp add: minus_mod_eq_mult_div)

lemma base_mod4: "(j - j mod 4) mod 4 = 0" for j :: nat
  by (simp add: base_decomp)

lemma pixel_offset:
  fixes b k :: nat
  assumes "b mod 4 = 0" and "k < 4"
  shows "(b + k) mod 4 = k" and "(b + k) - (b + k) mod 4 = b"
proof -
  from assms(1) obtain q where q: "b = 4 * q" by (auto simp: mod_eq_0_iff_dvd)
  show m: "(b + k) mod 4 = k" using assms(2) by (simp add: q)
  show "(b + k) - (b + k) mod 4 = b" unfolding m by simp
qed

lemma base_within:
  fixes i j :: nat
  assumes "i mod 4 = 0" and "i \<le> j" and "j < i + 4"
  shows "j - j mod 4 = i" and "j mod 4 = j - i"
proof -
  from assms(2) obtain k where k: "j = i + k" using le_Suc_ex by blast
  with assms(3) have k4: "k < 4" by simp
  from pixel_offset [OF assms(1) k4] show "j - j mod 4 = i" and "j mod 4 = j - i"
    by (simp_all add: k)
qed

lemma base_later:
  fixes i j :: nat
  assumes "i mod 4 = 0" and "i + 4 \<le> j"
  shows "i + 4 \<le> j - j mod 4"
proof -
  from assms(1) obtain q where q: "i = 4 * q" by (auto simp: mod_eq_0_iff_dvd)
  from assms(2) have "(i + 4) div 4 \<le> j div 4" by (rule div_le_mono)
  then have "q + 1 \<le> j div 4" by (simp add: q)
  then have "4 * (q + 1) \<le> 4 * (j div 4)" by simp
  then show ?thesis by (simp add: base_decomp q)
qed

lemma readAt_update: "readAt (d[k := v]) n = (if n = k \<and> k < length d then Some v else readAt d n)"
  by (simp add: readAt_def nth_list_update)

lemma matchesAt_later:
  "i + 4 \<le> b \<Longrightarrow> matchesAt fr (d[i := v0, i + 1 := v1, i + 2 := v2, i + 3 := v3]) b = matchesAt fr d b"
  by (simp add: matchesAt_def alphaBelow20_def byteIs_def readAt_update)

lemma mergeLoop_length: "length (fst (mergeLoop fr to d c i)) = length d"
  by (induction fr to d c i rule: mergeLoop.induct) (subst mergeLoop.simps, simp)

lemma mergeLoop_nth:
  assumes "i mod 4 = 0" and "j < length d"
  shows "fst (mergeLoop fr to d c i) ! j = (if i \<le> j then mergedByte fr to d j else d ! j)"
  using assms
proof (induction fr to d c i rule: mergeLoop.induct)
  case (1 fr to d c i)
  have i4: "(i + 4) mod 4 = 0" using "1.prems"(1) by simp
  show ?case
  proof (cases "i < length d")
    case False
    with "1.prems" show ?thesis by (subst mergeLoop.simps) simp
  next
    case inb: True
    have base_in: "j - j mod 4 = i" if "i \<le> j" "j < i + 4"
      using base_within(1) [OF "1.prems"(1) that] .
    have base_later: "i + 4 \<le> j - j mod 4" if "i + 4 \<le> j"
      using base_later [OF "1.prems"(1) that] .
    show ?thesis
    proof (cases "matchesAt fr d i")
      case False
      then have step: "mergeLoop fr to d c i = mergeLoop fr to d c (i + 4)"
        using inb by (subst mergeLoop.simps) (auto simp: matchesAt_def)
      have ih: "fst (mergeLoop fr to d c (i + 4)) ! j
          = (if i + 4 \<le> j then mergedByte fr to d j else d ! j)"
      proof (cases "alphaBelow20 d i")
        case True
        from "1.IH"(1) [OF inb True i4 "1.prems"(2)] show ?thesis .
      next
        case na: False
        with False have nm: "\<not> (byteIs d i (rgbR fr) \<and> byteIs d (i + 1) (rgbG fr) \<and>
                    byteIs d (i + 2) (rgbB fr))" by (simp add: matchesAt_def)
        from "1.IH"(3) [OF inb na nm i4 "1.prems"(2)] show ?thesis .
      qed
      show ?thesis unfolding step ih using False base_in
        by (auto simp: mergedByte_def)
    next
      case True
      let ?d1 = "d[i := clampStore (rgbR to), i + 1 := clampStore (rgbG to),
                      i + 2 := clampStore (rgbB to), i + 3 := 255]"
      from True have na: "\<not> alphaBelow20 d i" and m: "byteIs d i (rgbR fr) \<and> byteIs d (i + 1) (rgbG fr) \<and>
                    byteIs d (i + 2) (rgbB fr)" by (simp_all add: matchesAt_def)
      have step: "mergeLoop fr to d c i = mergeLoop fr to ?d1 (c + 1) (i + 4)"
        using inb na m by (subst mergeLoop.simps) simp
      have j1: "j < length ?d1" using "1.prems"(2) by simp
      have ih: "fst (mergeLoop fr to ?d1 (c + 1) (i + 4)) ! j
          = (if i + 4 \<le> j then mergedByte fr to ?d1 j else ?d1 ! j)"
        using "1.IH"(2) [OF inb na m i4 j1] .
      show ?thesis
      proof (cases "i + 4 \<le> j")
        case True
        have "matchesAt fr ?d1 (j - j mod 4) = matchesAt fr d (j - j mod 4)"
          by (rule matchesAt_later) (rule base_later [OF True])
        moreover have "?d1 ! j = d ! j" using True by simp
        ultimately have "mergedByte fr to ?d1 j = mergedByte fr to d j"
          by (simp only: mergedByte_def)
        with True show ?thesis unfolding step ih by simp
      next
        case lt: False
        show ?thesis
        proof (cases "i \<le> j")
          case False
          then show ?thesis unfolding step ih using lt by simp
        next
          case ge: True
          with lt have b: "j - j mod 4 = i" by (intro base_in) simp_all
          from ge lt have "j = i \<or> j = i + 1 \<or> j = i + 2 \<or> j = i + 3" by arith
          moreover have "j mod 4 = j - i" using base_within(2) [OF "1.prems"(1) ge] lt by simp
          ultimately have "?d1 ! j = storedByte to (j mod 4)"
            using "1.prems"(2) by (auto simp: storedByte_def nth_list_update)
          then show ?thesis unfolding step ih using lt ge True b by (simp add: mergedByte_def)
        qed
      qed
    qed
  qed
qed

lemma mergeLoop_result:
  assumes "j < length d"
  shows "fst (mergeLoop fr to d c 0) ! j = mergedByte fr to d j"
  using mergeLoop_nth [of 0 j d fr to c] assms by simp

lemma matchesAt_cong:
  assumes "readAt d' b = readAt d b" and "readAt d' (b + 1) = readAt d (b + 1)"
    and "readAt d' (b + 2) = readAt d (b + 2)" and "readAt d' (b + 3) = readAt d (b + 3)"
  shows "matchesAt fr d' b = matchesAt fr d b"
  using assms by (simp add: matchesAt_def alphaBelow20_def byteIs_def)

lemma merged_pixel_unchanged:
  assumes b: "b mod 4 = 0" and nm: "\<not> matchesAt fr d b" and k: "k < 4"
  shows "readAt (fst (mergeLoop fr to d c 0)) (b + k) = readAt d (b + k)"
proof (cases "b + k < length d")
  case False
  then show ?thesis by (simp add: readAt_def mergeLoop_length)
next
  case True
  have "(b + k) - (b + k) mod 4 = b" using b k by (rule pixel_offset(2))
  with nm True show ?thesis
    by (simp add: readAt_def mergeLoop_length mergeLoop_result mergedByte_def)
qed

lemma merged_matches_imp:
  assumes b: "b mod 4 = 0" and m: "matchesAt fr (fst (mergeLoop fr to d c 0)) b"
  shows "matchesAt fr d b"
proof (rule ccontr)
  assume nm: "\<not> matchesAt fr d b"
  have "matchesAt fr (fst (mergeLoop fr to d c 0)) b = matchesAt fr d b"
    using merged_pixel_unchanged [OF b nm, of 0 to c] merged_pixel_unchanged [OF b nm, of 1 to c]
      merged_pixel_unchanged [OF b nm, of 2 to c] merged_pixel_unchanged [OF b nm, of 3 to c]
    by (intro matchesAt_cong) simp_all
  with m nm show False by simp
qed

lemma mergeLoop_idempotent:
  "fst (mergeLoop fr to (fst (mergeLoop fr to d c 0)) c' 0) = fst (mergeLoop fr to d c 0)"
proof (rule nth_equalityI)
  show "length (fst (mergeLoop fr to (fst (mergeLoop fr to d c 0)) c' 0))
      = length (fst (mergeLoop fr to d c 0))"
    by (simp add: mergeLoop_length)
next
  fix j
  let ?r = "fst (mergeLoop fr to d c 0)"
  assume "j < length (fst (mergeLoop fr to ?r c' 0))"
  then have j: "j < length d" by (simp add: mergeLoop_length)
  then have jr: "j < length ?r" by (simp add: mergeLoop_length)
  have b: "(j - j mod 4) mod 4 = 0" by (rule base_mod4)
  have "fst (mergeLoop fr to ?r c' 0) ! j = mergedByte fr to ?r j"
    using jr by (rule mergeLoop_result)
  also have "\<dots> = ?r ! j"
  proof (cases "matchesAt fr ?r (j - j mod 4)")
    case False
    then show ?thesis by (simp add: mergedByte_def)
  next
    case True
    with b have "matchesAt fr d (j - j mod 4)" by (rule merged_matches_imp)
    then have "?r ! j = storedByte to (j mod 4)"
      using j by (simp add: mergeLoop_result mergedByte_def)
    with True show ?thesis by (simp add: mergedByte_def)
  qed
  finally show "fst (mergeLoop fr to ?r c' 0) ! j = ?r ! j" .
qed

lemma merged_no_from_pixel:
  assumes op: "opaquePixel (fst (mergeLoop fr to d c 0)) p"
    and col: "pixelHasColour (fst (mergeLoop fr to d c 0)) p fr"
  shows "fr = storedColour to"
proof -
  let ?r = "fst (mergeLoop fr to d c 0)"
  from op have len: "4 * p + 3 < length d" and alpha: "20 \<le> ?r ! (4 * p + 3)"
    by (simp_all add: opaquePixel_def mergeLoop_length)
  have b: "(4 * p) mod 4 = 0" by simp
  have "matchesAt fr ?r (4 * p)"
    using len alpha col
    by (simp add: matchesAt_def alphaBelow20_def byteIs_def readAt_def pixelHasColour_def
        mergeLoop_length)
  with b have m: "matchesAt fr d (4 * p)" by (rule merged_matches_imp)
  have base: "(4 * p + k) - (4 * p + k) mod 4 = 4 * p" if "k < 4" for k
    using b that by (rule pixel_offset(2))
  have byte: "?r ! (4 * p + k) = storedByte to k" if "k < 4" for k
  proof -
    have "(4 * p + k) mod 4 = k" using b that by (rule pixel_offset(1))
    with that len m base [OF that] show ?thesis
      by (simp add: mergeLoop_result mergedByte_def)
  qed
  from byte [of 0] byte [of 1] byte [of 2] col show ?thesis
    by (cases fr) (simp add: pixelHasColour_def storedColour_def storedByte_def)
qed

lemma clampStore_byte: "isByte v \<Longrightarrow> Num (int (clampStore v)) = v"
  by (cases v) (simp_all add: isByte_def clampStore_def)

lemma storedColour_byte: "isByteColour c \<Longrightarrow> storedColour c = c"
  by (simp add: isByteColour_def storedColour_def clampStore_byte)

text \<open>
  C8. Merging fromHex into toHex twice gives the same raster, byte for byte, as merging
  once, for every raster and every pair of strings. After the first merge no pixel with
  alpha at least 20 has exactly the colour of fromHex, unless fromHex and toHex denote
  the same colour. In general the exception is that the colour stored for toHex is the
  colour of fromHex; for a toHex whose three components parse to bytes, as those of a
  six-digit hexadecimal colour do, it is that hexToRgb fromHex = hexToRgb toHex.
\<close>

theorem mergeColorInImage_idempotent:
  "fst (mergeColorInImage (fst (mergeColorInImage img fromHex toHex)) fromHex toHex)
     = fst (mergeColorInImage img fromHex toHex) \<and>
   (hexToRgb fromHex \<noteq> storedColour (hexToRgb toHex) \<longrightarrow>
      (\<forall>p. \<not> (opaquePixel (data (fst (mergeColorInImage img fromHex toHex))) p \<and>
               pixelHasColour (data (fst (mergeColorInImage img fromHex toHex))) p
                 (hexToRgb fromHex)))) \<and>
   (isByteColour (hexToRgb toHex) \<and> hexToRgb fromHex \<noteq> hexToRgb toHex \<longrightarrow>
      (\<forall>p. \<not> (opaquePixel (data (fst (mergeColorInImage img fromHex toHex))) p \<and>
               pixelHasColour (data (fst (mergeColorInImage img fromHex toHex))) p
                 (hexToRgb fromHex))))"
proof -
  have d: "data (fst (mergeColorInImage img f t))
      = fst (mergeLoop (hexToRgb f) (hexToRgb t) (data img) 0 0)" for img f t
    by (simp add: mergeColorInImage_def split: prod.splits)
  have i: "fst (mergeColorInImage img f t)
      = img\<lparr>data := fst (mergeLoop (hexToRgb f) (hexToRgb t) (data img) 0 0)\<rparr>" for img f t
    by (simp add: mergeColorInImage_def split: prod.splits)
  have "fst (mergeColorInImage (fst (mergeColorInImage img fromHex toHex)) fromHex toHex)
     = fst (mergeColorInImage img fromHex toHex)"
    by (simp add: i mergeLoop_idempotent)
  moreover have "\<not> (opaquePixel (data (fst (mergeColorInImage img fromHex toHex))) p \<and>
               pixelHasColour (data (fst (mergeColorInImage img fromHex toHex))) p
                 (hexToRgb fromHex))"
    if "hexToRgb fromHex \<noteq> storedColour (hexToRgb toHex)" for p
    using that merged_no_from_pixel [of "hexToRgb fromHex" "hexToRgb toHex" "data img" 0 p]
    unfolding d by blast
  ultimately show ?thesis using storedColour_byte [of "hexToRgb toHex"] by metis
qed

theorem mergeColorInImage_idempotent_witness:
  "fst (mergeColorInImage (fst (mergeColorInImage twoPixelImage ''#FF0000'' ''#00ff00''))
         ''#FF0000'' ''#00ff00'')
     = fst (mergeColorInImage twoPixelImage ''#FF0000'' ''#00ff00'') \<and>
   isByteColour (hexToRgb ''#00ff00'') \<and> hexToRgb ''#FF0000'' \<noteq> hexToRgb ''#00ff00'' \<and>
   \<not> (opaquePixel (data (fst (mergeColorInImage twoPixelImage ''#FF0000'' ''#00ff00''))) 0 \<and>
      pixelHasColour (data (fst (mergeColorInImage twoPixelImage ''#FF0000'' ''#00ff00''))) 0
        (hexToRgb ''#FF0000''))"
proof -
  have h: "hexToRgb ''#FF0000'' \<noteq> storedColour (hexToRgb ''#00ff00'')"
    by code_simp
  have b: "isByteColour (hexToRgb ''#00ff00'')"
    by code_simp
  have n: "hexToRgb ''#FF0000'' \<noteq> hexToRgb ''#00ff00''"
    by code_simp
  from mergeColorInImage_idempotent [of twoPixelImage "''#FF0000''" "''#00ff00''"] h b n
  show ?thesis by blast
qed

lemma mergeColorInImage_example:
  "mergeColorInImage twoPixelImage ''#FF0000'' ''#00ff00''
     = (\<lparr>width = 2, height = 1, data = [0, 255, 0, 255, 255, 0, 0, 10]\<rparr>, 1)"
  by code_simp

section \<open>Properties of the quantizer\<close>

lemma sampleLoop_total:
  assumes "0 < stride"
  shows "\<exists>r. sampleLoop d stride i acc = Some r"
proof (induction "length d - i" arbitrary: i acc rule: less_induct)
  case less
  show ?case
  proof (cases "i < length d")
    case False
    then show ?thesis by (subst sampleLoop.simps) simp
  next
    case True
    with assms have "length d - (i + 4 * stride) < length d - i" by simp
    from less [OF this] True show ?thesis by (subst sampleLoop.simps) simp
  qed
qed

lemma sampleLoop_transparent:
  assumes "0 < stride"
    and "\<And>j. i + 4 * stride * j < length d \<Longrightarrow> alphaBelow20 d (i + 4 * stride * j)"
  shows "sampleLoop d stride i acc = Some acc"
  using assms(2)
proof (induction "length d - i" arbitrary: i rule: less_induct)
  case less
  show ?case
  proof (cases "i < length d")
    case False
    then show ?thesis by (subst sampleLoop.simps) simp
  next
    case True
    with assms(1) have dec: "length d - (i + 4 * stride) < length d - i" by simp
    from less.prems [of 0] True have a: "alphaBelow20 d i" by simp
    have "alphaBelow20 d (i + 4 * stride + 4 * stride * j)"
      if "i + 4 * stride + 4 * stride * j < length d" for j
      using less.prems [of "Suc j"] that by (simp add: algebra_simps)
    from less.hyps [OF dec this] a True show ?thesis by (subst sampleLoop.simps) simp
  qed
qed

lemma sampleLoop_bytes:
  assumes "sampleLoop d0 stride0 i0 acc0 = Some r0"
  shows "sampleBytesInv d0 stride0 i0 acc0 r0"
proof (rule sampleLoop.raw_induct [where P = sampleBytesInv, OF _ assms])
  fix f :: "nat list \<Rightarrow> nat \<Rightarrow> nat \<Rightarrow> nat rgb list \<Rightarrow> nat rgb list option"
  fix d stride i acc r
  assume ih: "\<And>d stride i acc r. f d stride i acc = Some r \<Longrightarrow> sampleBytesInv d stride i acc r"
    and eq: "(if i < length d
      then (if alphaBelow20 d i then f d stride (i + 4 * stride) acc
            else f d stride (i + 4 * stride)
                   (acc @ [\<lparr>rgbR = d ! i, rgbG = d ! (i + 1), rgbB = d ! (i + 2)\<rparr>]))
      else Some acc) = Some r"
  show "sampleBytesInv d stride i acc r"
    unfolding sampleBytesInv_def
  proof (intro impI, elim conjE)
    assume len: "4 dvd length d" and i4: "4 dvd i" and db: "\<forall>b \<in> set d. b \<le> 255"
      and ab: "\<forall>c \<in> set acc. byteColour c"
    have i4': "4 dvd i + 4 * stride" using i4 by simp
    show "\<forall>c \<in> set r. byteColour c"
    proof (cases "i < length d")
      case False
      with eq ab show ?thesis by simp
    next
      case inb: True
      show ?thesis
      proof (cases "alphaBelow20 d i")
        case True
        with inb eq have "f d stride (i + 4 * stride) acc = Some r" by simp
        from ih [OF this] len i4' db ab show ?thesis by (simp add: sampleBytesInv_def)
      next
        case False
        let ?p = "\<lparr>rgbR = d ! i, rgbG = d ! (i + 1), rgbB = d ! (i + 2)\<rparr>"
        from False inb eq have call: "f d stride (i + 4 * stride) (acc @ [?p]) = Some r"
          by simp
        from len i4 inb have "i + 3 < length d" by (auto elim!: dvdE)
        with db have "byteColour ?p" by (simp add: byteColour_def)
        with ab have "\<forall>c \<in> set (acc @ [?p]). byteColour c" by simp
        with ih [OF call] len i4' db show ?thesis by (simp add: sampleBytesInv_def)
      qed
    qed
  qed
qed

lemma sampleLoop_some:
  assumes "sampleLoop d0 stride0 i0 acc0 = Some r0"
  shows "sampleSomeInv d0 stride0 i0 acc0 r0"
proof (rule sampleLoop.raw_induct [where P = sampleSomeInv, OF _ assms])
  fix f :: "nat list \<Rightarrow> nat \<Rightarrow> nat \<Rightarrow> nat rgb list \<Rightarrow> nat rgb list option"
  fix d stride i acc r
  assume ih: "\<And>d stride i acc r. f d stride i acc = Some r \<Longrightarrow> sampleSomeInv d stride i acc r"
    and eq: "(if i < length d
      then (if alphaBelow20 d i then f d stride (i + 4 * stride) acc
            else f d stride (i + 4 * stride)
                   (acc @ [\<lparr>rgbR = d ! i, rgbG = d ! (i + 1), rgbB = d ! (i + 2)\<rparr>]))
      else Some acc) = Some r"
  show "sampleSomeInv d stride i acc r"
    unfolding sampleSomeInv_def
  proof (rule impI)
    assume pre: "acc \<noteq> [] \<or>
      (\<exists>j. i + 4 * stride * j < length d \<and> \<not> alphaBelow20 d (i + 4 * stride * j))"
    show "r \<noteq> []"
    proof (cases "i < length d")
      case False
      then have "\<And>j. \<not> i + 4 * stride * j < length d" by simp
      with pre have "acc \<noteq> []" by blast
      with False eq show ?thesis by simp
    next
      case inb: True
      show ?thesis
      proof (cases "alphaBelow20 d i")
        case True
        with inb eq have call: "f d stride (i + 4 * stride) acc = Some r" by simp
        have "acc \<noteq> [] \<or> (\<exists>j. i + 4 * stride + 4 * stride * j < length d
                    \<and> \<not> alphaBelow20 d (i + 4 * stride + 4 * stride * j))"
        proof (cases "acc = []")
          case False
          then show ?thesis by simp
        next
          case True
          with pre obtain j where j: "i + 4 * stride * j < length d"
            "\<not> alphaBelow20 d (i + 4 * stride * j)" by blast
          with \<open>alphaBelow20 d i\<close> obtain j' where j': "j = Suc j'" by (cases j) auto
          have "i + 4 * stride * j = i + 4 * stride + 4 * stride * j'" by (simp add: j')
          with j show ?thesis by metis
        qed
        with ih [OF call] show ?thesis by (simp add: sampleSomeInv_def)
      next
        case False
        let ?p = "\<lparr>rgbR = d ! i, rgbG = d ! (i + 1), rgbB = d ! (i + 2)\<rparr>"
        from False inb eq have call: "f d stride (i + 4 * stride) (acc @ [?p]) = Some r"
          by simp
        from ih [OF call] show ?thesis by (simp add: sampleSomeInv_def)
      qed
    qed
  qed
qed

lemma sampleLoop_length:
  assumes "0 < stride"
  shows "\<exists>r. sampleLoop d stride i acc = Some r \<and> length r \<le> length acc + (length d - i)"
proof (induction "length d - i" arbitrary: i acc rule: less_induct)
  case less
  show ?case
  proof (cases "i < length d")
    case False
    then show ?thesis by (subst sampleLoop.simps) simp
  next
    case True
    with assms have dec: "length d - (i + 4 * stride) < length d - i" by simp
    let ?p = "\<lparr>rgbR = d ! i, rgbG = d ! (i + 1), rgbB = d ! (i + 2)\<rparr>"
    from less [OF dec, of acc] obtain r1 where r1: "sampleLoop d stride (i + 4 * stride) acc = Some r1"
      "length r1 \<le> length acc + (length d - (i + 4 * stride))" by blast
    from less [OF dec, of "acc @ [?p]"] obtain r2 where
      r2: "sampleLoop d stride (i + 4 * stride) (acc @ [?p]) = Some r2"
      "length r2 \<le> length (acc @ [?p]) + (length d - (i + 4 * stride))" by blast
    from r1(2) True assms have l1: "length r1 \<le> length acc + (length d - i)" by simp
    from r2(2) True assms have l2: "length r2 \<le> length acc + (length d - i)" by simp
    show ?thesis
    proof (cases "alphaBelow20 d i")
      case a: True
      have "sampleLoop d stride i acc = sampleLoop d stride (i + 4 * stride) acc"
        by (subst sampleLoop.simps) (simp add: True a)
      with r1(1) l1 show ?thesis by simp
    next
      case a: False
      have "sampleLoop d stride i acc = sampleLoop d stride (i + 4 * stride) (acc @ [?p])"
        by (subst sampleLoop.simps) (simp add: True a)
      with r2(1) l2 show ?thesis by simp
    qed
  qed
qed

lemma nearest_fold_fst:
  "fst (fold (\<lambda>i (best, bestD).
                  let d = dist2 p (centroids ! i)
                  in if (case bestD of None \<Rightarrow> True | Some bd \<Rightarrow> d < bd) then (i, Some d)
                     else (best, bestD)) [0..<n] s) = fst s \<or>
   fst (fold (\<lambda>i (best, bestD).
                  let d = dist2 p (centroids ! i)
                  in if (case bestD of None \<Rightarrow> True | Some bd \<Rightarrow> d < bd) then (i, Some d)
                     else (best, bestD)) [0..<n] s) < n"
proof (induction n)
  case 0
  show ?case by simp
next
  case (Suc n)
  then show ?case
    by (auto simp: Let_def split: prod.splits option.splits)
qed

lemma nearestCentroidIndex_less:
  assumes "centroids \<noteq> []"
  shows "nearestCentroidIndex p centroids < length centroids"
  using nearest_fold_fst [of p centroids "length centroids" "(0, None)"] assms
  by (auto simp: nearestCentroidIndex_def)

lemma pickRandom_sound:
  assumes "pickRandom draws samples k cs used = Some r" and "samples \<noteq> []"
    and "set cs \<subseteq> set samples" and "length cs \<le> k"
  shows "set r \<subseteq> set samples \<and> length r \<le> k"
  using assms
proof (induction draws samples k cs used rule: pickRandom.induct)
  case (1 samples k cs used)
  then show ?case by (simp split: if_splits)
next
  case (2 draw draws samples k cs used)
  show ?case
  proof (cases "length cs < k \<and> length used < length samples")
    case False
    with 2 show ?thesis by simp
  next
    case c: True
    let ?idx = "draw mod length samples"
    from "2.prems"(2) have idx: "?idx < length samples" by simp
    show ?thesis
    proof (cases "?idx \<in> set used")
      case True
      with c "2.prems"(1) have "pickRandom draws samples k cs used = Some r" by simp
      from "2.IH"(1) [OF c refl True this "2.prems"(2,3,4)] show ?thesis .
    next
      case False
      with c "2.prems"(1)
      have call: "pickRandom draws samples k (cs @ [samples ! ?idx]) (used @ [?idx]) = Some r"
        by (simp add: Let_def)
      have sub: "set (cs @ [samples ! ?idx]) \<subseteq> set samples"
        using "2.prems"(3) idx by simp
      have len: "length (cs @ [samples ! ?idx]) \<le> k" using c by simp
      from "2.IH"(2) [OF c refl False call "2.prems"(2) sub len] show ?thesis .
    qed
  qed
qed

lemma pickInitialCentroids_sound:
  assumes "pickInitialCentroids draws samples k = Some c0" and "samples \<noteq> []"
  shows "set c0 \<subseteq> set samples \<and> length c0 = k"
proof -
  from assms(1) obtain cs where cs: "pickRandom draws samples k [] [] = Some cs"
    and c0: "c0 = cs @ replicate (k - length cs) (samples ! 0)"
    by (auto simp: pickInitialCentroids_def split: option.splits)
  from pickRandom_sound [OF cs assms(2)] have "set cs \<subseteq> set samples" "length cs \<le> k" by simp_all
  moreover from assms(2) have "samples ! 0 \<in> set samples" by simp
  ultimately show ?thesis unfolding c0 by auto
qed

lemma pickRandom_enough:
  assumes "distinct used" and "length cs = length used"
    and "min k (length samples) \<le> card (set used \<union> (\<lambda>dr. dr mod length samples) ` set draws)"
  shows "pickRandom draws samples k cs used \<noteq> None"
  using assms
proof (induction draws samples k cs used rule: pickRandom.induct)
  case (1 samples k cs used)
  from "1.prems" have "min k (length samples) \<le> length used"
    by (simp add: distinct_card)
  with "1.prems"(2) show ?case by auto
next
  case (2 draw draws samples k cs used)
  show ?case
  proof (cases "length cs < k \<and> length used < length samples")
    case False
    then show ?thesis by auto
  next
    case c: True
    let ?idx = "draw mod length samples"
    show ?thesis
    proof (cases "?idx \<in> set used")
      case True
      then have "set used \<union> (\<lambda>dr. dr mod length samples) ` set (draw # draws)
          = set used \<union> (\<lambda>dr. dr mod length samples) ` set draws" by auto
      with "2.prems"(3)
      have "min k (length samples) \<le> card (set used \<union> (\<lambda>dr. dr mod length samples) ` set draws)"
        by simp
      from "2.IH"(1) [OF c refl True "2.prems"(1,2) this] c True show ?thesis by simp
    next
      case False
      have "set (used @ [?idx]) \<union> (\<lambda>dr. dr mod length samples) ` set draws
          = set used \<union> (\<lambda>dr. dr mod length samples) ` set (draw # draws)" by auto
      with "2.prems"(3)
      have e: "min k (length samples)
          \<le> card (set (used @ [?idx]) \<union> (\<lambda>dr. dr mod length samples) ` set draws)"
        by simp
      have d: "distinct (used @ [?idx])" using "2.prems"(1) False by simp
      have l: "length (cs @ [samples ! ?idx]) = length (used @ [?idx])"
        using "2.prems"(2) by simp
      from "2.IH"(2) [OF c refl False d l e] c False show ?thesis by (simp add: Let_def)
    qed
  qed
qed

lemma pickInitialCentroids_total:
  assumes "samples \<noteq> []" and "{..<length samples} \<subseteq> set draws"
  shows "pickInitialCentroids draws samples k \<noteq> None"
proof -
  let ?n = "length samples"
  have "{..<?n} \<subseteq> (\<lambda>dr. dr mod ?n) ` set draws"
  proof
    fix x assume "x \<in> {..<?n}"
    then have "x \<in> set draws" "x mod ?n = x" using assms(2) by auto
    then show "x \<in> (\<lambda>dr. dr mod ?n) ` set draws" by force
  qed
  then have "card {..<?n} \<le> card ((\<lambda>dr. dr mod ?n) ` set draws)"
    by (intro card_mono) simp_all
  then have "min k ?n \<le> card (set [] \<union> (\<lambda>dr. dr mod ?n) ` set draws)" by simp
  from pickRandom_enough [OF _ _ this, of "[]"] show ?thesis
    by (auto simp: pickInitialCentroids_def split: option.splits)
qed

lemma clampByte_le: "clampByte x \<le> 255"
  by (simp add: clampByte_def)

lemma kmeansRound_bytes:
  "length (fst (kmeansRound samples cs k)) = length cs \<and>
   (\<forall>c \<in> set (fst (kmeansRound samples cs k)). byteColour c)"
  by (auto simp: kmeansRound_def Let_def byteColour_def clampByte_le)

lemma kmeansLoop_bytes:
  assumes "\<forall>c \<in> set cs. byteColour c"
  shows "length (kmeansLoop n samples cs k) = length cs \<and>
         (\<forall>c \<in> set (kmeansLoop n samples cs k). byteColour c)"
  using assms
proof (induction n arbitrary: cs)
  case 0
  then show ?case by simp
next
  case (Suc n)
  obtain cs' moved where r: "kmeansRound samples cs k = (cs', moved)" by (cases "kmeansRound samples cs k")
  from kmeansRound_bytes [of samples cs k] r
  have b: "length cs' = length cs" "\<forall>c \<in> set cs'. byteColour c" by simp_all
  show ?case
  proof (cases "moved = 0")
    case True
    with r b show ?thesis by simp
  next
    case False
    with r Suc.IH [OF b(2)] b(1) show ?thesis by simp
  qed
qed

lemma quantizeLoop_step:
  assumes "i < length d"
  shows "\<exists>cnts'. quantizeLoop d cs out cnts i =
           quantizeLoop d cs (out[i := quantizedPixel d cs i ! 0, i + 1 := quantizedPixel d cs i ! 1,
                                  i + 2 := quantizedPixel d cs i ! 2, i + 3 := quantizedPixel d cs i ! 3])
             cnts' (i + 4)"
proof (cases "alphaBelow20 d i")
  case True
  with assms have "quantizeLoop d cs out cnts i =
      quantizeLoop d cs (out[i := 0, i + 1 := 0, i + 2 := 0, i + 3 := 0]) cnts (i + 4)"
    by (subst quantizeLoop.simps) simp
  with True show ?thesis by (auto simp: quantizedPixel_def)
next
  case False
  let ?c = "cs ! nearestCentroidIndex (pixelAt d i) cs"
  from False assms have "quantizeLoop d cs out cnts i =
      quantizeLoop d cs (out[i := min 255 (rgbR ?c), i + 1 := min 255 (rgbG ?c),
                            i + 2 := min 255 (rgbB ?c), i + 3 := 255])
        (cnts[nearestCentroidIndex (pixelAt d i) cs := cnts ! nearestCentroidIndex (pixelAt d i) cs + 1])
        (i + 4)"
    by (subst quantizeLoop.simps) (simp add: Let_def pixelAt_def)
  with False show ?thesis by (auto simp: quantizedPixel_def Let_def)
qed

lemma quantizeLoop_length:
  "length (fst (quantizeLoop d cs out cnts i)) = length out"
proof (induction "length d - i" arbitrary: i out cnts rule: less_induct)
  case less
  show ?case
  proof (cases "i < length d")
    case False
    then show ?thesis by (subst quantizeLoop.simps) simp
  next
    case True
    then have dec: "length d - (i + 4) < length d - i" by simp
    from quantizeLoop_step [OF True, of cs out cnts] obtain cnts' where
      "quantizeLoop d cs out cnts i =
           quantizeLoop d cs (out[i := quantizedPixel d cs i ! 0, i + 1 := quantizedPixel d cs i ! 1,
                                  i + 2 := quantizedPixel d cs i ! 2, i + 3 := quantizedPixel d cs i ! 3])
             cnts' (i + 4)" by blast
    then show ?thesis using less [OF dec] by simp
  qed
qed

lemma quantizeLoop_nth:
  assumes "i mod 4 = 0" and "j < length out" and "length out = length d"
  shows "fst (quantizeLoop d cs out cnts i) ! j =
           (if i \<le> j then quantizedPixel d cs (j - j mod 4) ! (j mod 4) else out ! j)"
  using assms
proof (induction "length d - i" arbitrary: i out cnts rule: less_induct)
  case less
  show ?case
  proof (cases "i < length d")
    case False
    with less.prems show ?thesis by (subst quantizeLoop.simps) simp
  next
    case True
    then have dec: "length d - (i + 4) < length d - i" by simp
    let ?q = "quantizedPixel d cs i"
    let ?out1 = "out[i := ?q ! 0, i + 1 := ?q ! 1, i + 2 := ?q ! 2, i + 3 := ?q ! 3]"
    from quantizeLoop_step [OF True, of cs out cnts] obtain cnts' where
      step: "quantizeLoop d cs out cnts i = quantizeLoop d cs ?out1 cnts' (i + 4)" by blast
    have i4: "(i + 4) mod 4 = 0" using less.prems(1) by simp
    have j1: "j < length ?out1" and l1: "length ?out1 = length d" using less.prems by simp_all
    have ih: "fst (quantizeLoop d cs ?out1 cnts' (i + 4)) ! j =
           (if i + 4 \<le> j then quantizedPixel d cs (j - j mod 4) ! (j mod 4) else ?out1 ! j)"
      using less.hyps [OF dec i4 j1 l1] .
    show ?thesis
    proof (cases "i + 4 \<le> j")
      case True
      then show ?thesis unfolding step ih by simp
    next
      case lt: False
      show ?thesis
      proof (cases "i \<le> j")
        case False
        then show ?thesis unfolding step ih using lt by simp
      next
        case ge: True
        from lt have lt': "j < i + 4" by simp
        have b: "j - j mod 4 = i" and m: "j mod 4 = j - i"
          using base_within [OF less.prems(1) ge lt'] by simp_all
        from ge lt' have "j = i \<or> j = i + 1 \<or> j = i + 2 \<or> j = i + 3" by arith
        then have "?out1 ! j = ?q ! (j - i)"
          using less.prems(2) by (auto simp: nth_list_update)
        then show ?thesis unfolding step ih using lt ge b m by simp
      qed
    qed
  qed
qed

lemma quantizeLoop_step_counts:
  assumes "i < length d"
  shows "\<exists>out'. quantizeLoop d cs out cnts i =
           quantizeLoop d cs out'
             (if alphaBelow20 d i then cnts
              else cnts[nearestCentroidIndex (pixelAt d i) cs :=
                          cnts ! nearestCentroidIndex (pixelAt d i) cs + 1])
             (i + 4)"
proof (cases "alphaBelow20 d i")
  case True
  with assms have "quantizeLoop d cs out cnts i =
      quantizeLoop d cs (out[i := 0, i + 1 := 0, i + 2 := 0, i + 3 := 0]) cnts (i + 4)"
    by (subst quantizeLoop.simps) simp
  with True show ?thesis by auto
next
  case False
  let ?c = "cs ! nearestCentroidIndex (pixelAt d i) cs"
  from False assms have "quantizeLoop d cs out cnts i =
      quantizeLoop d cs (out[i := min 255 (rgbR ?c), i + 1 := min 255 (rgbG ?c),
                            i + 2 := min 255 (rgbB ?c), i + 3 := 255])
        (cnts[nearestCentroidIndex (pixelAt d i) cs := cnts ! nearestCentroidIndex (pixelAt d i) cs + 1])
        (i + 4)"
    by (subst quantizeLoop.simps) (simp add: Let_def pixelAt_def)
  with False show ?thesis by auto
qed

lemma quantizeLoop_counts:
  assumes "length d = 4 * n" and "idx < length cnts"
  shows "length (snd (quantizeLoop d cs out cnts (4 * q))) = length cnts \<and>
         snd (quantizeLoop d cs out cnts (4 * q)) ! idx =
           cnts ! idx +
           length (filter (\<lambda>p. \<not> alphaBelow20 d (4 * p) \<and>
                                nearestCentroidIndex (pixelAt d (4 * p)) cs = idx) [q..<n])"
  using assms(2)
proof (induction "n - q" arbitrary: q out cnts rule: less_induct)
  case less
  let ?P = "\<lambda>p. \<not> alphaBelow20 d (4 * p) \<and> nearestCentroidIndex (pixelAt d (4 * p)) cs = idx"
  show ?case
  proof (cases "q < n")
    case False
    with assms(1) have "\<not> 4 * q < length d" by simp
    with False show ?thesis by (subst (1 2) quantizeLoop.simps) simp
  next
    case True
    with assms(1) have inb: "4 * q < length d" by simp
    let ?k = "nearestCentroidIndex (pixelAt d (4 * q)) cs"
    let ?cnts1 = "if alphaBelow20 d (4 * q) then cnts else cnts[?k := cnts ! ?k + 1]"
    from quantizeLoop_step_counts [OF inb, of cs out cnts] obtain out' where
      step: "quantizeLoop d cs out cnts (4 * q) = quantizeLoop d cs out' ?cnts1 (4 * q + 4)"
      by blast
    have q1: "4 * q + 4 = 4 * Suc q" by simp
    from True have dec: "n - Suc q < n - q" by simp
    have l1: "idx < length ?cnts1" using less.prems by simp
    note ih = less.hyps [OF dec l1, of out']
    have upt: "[q..<n] = q # [Suc q..<n]" using True by (simp add: upt_conv_Cons)
    have c1: "?cnts1 ! idx = cnts ! idx + (if ?P q then 1 else 0)"
      using less.prems by (auto simp: nth_list_update)
    have len1: "length ?cnts1 = length cnts" by simp
    show ?thesis
      unfolding step q1 using ih c1 len1 by (simp add: upt)
  qed
qed

lemma quantizeLoop_coverage:
  assumes "length d = 4 * n" and "idx < k"
  shows "snd (quantizeLoop d cs out (replicate k 0) 0) ! idx = coverage d cs idx"
  using quantizeLoop_counts [OF assms(1), of idx "replicate k 0" cs out 0] assms
  by (simp add: coverage_def)

lemma sampleLoop_none:
  assumes "sampleLoop d0 stride0 i0 acc0 = Some r0"
  shows "sampleNoneInv d0 stride0 i0 acc0 r0"
proof (rule sampleLoop.raw_induct [where P = sampleNoneInv, OF _ assms])
  fix f :: "nat list \<Rightarrow> nat \<Rightarrow> nat \<Rightarrow> nat rgb list \<Rightarrow> nat rgb list option"
  fix d stride i acc r
  assume ih: "\<And>d stride i acc r. f d stride i acc = Some r \<Longrightarrow> sampleNoneInv d stride i acc r"
    and eq: "(if i < length d
      then (if alphaBelow20 d i then f d stride (i + 4 * stride) acc
            else f d stride (i + 4 * stride)
                   (acc @ [\<lparr>rgbR = d ! i, rgbG = d ! (i + 1), rgbB = d ! (i + 2)\<rparr>]))
      else Some acc) = Some r"
  show "sampleNoneInv d stride i acc r"
    unfolding sampleNoneInv_def
  proof (rule impI)
    assume pre: "\<forall>j. i + 4 * stride * j < length d \<longrightarrow> alphaBelow20 d (i + 4 * stride * j)"
    show "r = acc"
    proof (cases "i < length d")
      case False
      with eq show ?thesis by simp
    next
      case True
      with pre [rule_format, of 0] have a: "alphaBelow20 d i" by simp
      with True eq have call: "f d stride (i + 4 * stride) acc = Some r" by simp
      have "\<forall>j. i + 4 * stride + 4 * stride * j < length d
                \<longrightarrow> alphaBelow20 d (i + 4 * stride + 4 * stride * j)"
      proof (intro allI impI)
        fix j assume "i + 4 * stride + 4 * stride * j < length d"
        with pre [rule_format, of "Suc j"] show "alphaBelow20 d (i + 4 * stride + 4 * stride * j)"
          by (simp add: algebra_simps)
      qed
      with ih [OF call] show ?thesis by (simp add: sampleNoneInv_def)
    qed
  qed
qed

lemma quantizeKMeans_Some:
  assumes "quantizeKMeans draws img opts = Some res"
  obtains (degenerate) "sampleLoop (data img) (strideOf opts) 0 [] = Some []"
      "res = \<lparr>width = width img, height = height img,
              quantized = \<lparr>width = width img, height = height img, data = data img\<rparr>,
              palette = [\<lparr>rgbR = 0, rgbG = 0, rgbB = 0\<rparr>],
              counts = [width img * height img]\<rparr>"
  | (clustered) samples c0 where
      "sampleLoop (data img) (strideOf opts) 0 [] = Some samples" "samples \<noteq> []"
      "pickInitialCentroids draws samples (clampK (optK opts)) = Some c0"
      "res = \<lparr>width = width img, height = height img,
              quantized = \<lparr>width = width img, height = height img,
                 data = fst (quantizeLoop (data img)
                               (kmeansLoop (itersOf opts) samples c0 (clampK (optK opts)))
                               (replicate (length (data img)) 0)
                               (replicate (clampK (optK opts)) 0) 0)\<rparr>,
              palette = kmeansLoop (itersOf opts) samples c0 (clampK (optK opts)),
              counts = snd (quantizeLoop (data img)
                               (kmeansLoop (itersOf opts) samples c0 (clampK (optK opts)))
                               (replicate (length (data img)) 0)
                               (replicate (clampK (optK opts)) 0) 0)\<rparr>"
proof -
  from assms obtain samples where s: "sampleLoop (data img) (strideOf opts) 0 [] = Some samples"
    by (auto simp: quantizeKMeans_def Let_def split: option.splits)
  show thesis
  proof (cases "samples = []")
    case True
    with assms s degenerate show ?thesis
      by (simp add: quantizeKMeans_def Let_def)
  next
    case False
    with assms s obtain c0 where
      c0: "pickInitialCentroids draws samples (clampK (optK opts)) = Some c0"
      by (auto simp: quantizeKMeans_def Let_def split: option.splits)
    with assms s False clustered [OF s False c0] show ?thesis
      by (simp add: quantizeKMeans_def Let_def split: prod.splits)
  qed
qed

lemma alphaBelow20_shape:
  assumes "length d = 4 * n" and "4 * m < length d"
  shows "alphaBelow20 d (4 * m) \<longleftrightarrow> d ! (4 * m + 3) < 20"
proof -
  from assms have "4 * m + 3 < length d" by simp
  then show ?thesis by (simp add: alphaBelow20_def readAt_def)
qed

lemma clampK_ge: "2 \<le> clampK k"
  by (simp add: clampK_def)

lemma sampled_iff:
  assumes shape: "length (data img) = 4 * n"
  shows "someSampleOpaque img opts \<longleftrightarrow>
         (\<exists>j. 0 + 4 * strideOf opts * j < length (data img) \<and>
              \<not> alphaBelow20 (data img) (0 + 4 * strideOf opts * j))"
proof -
  have "(20 \<le> data img ! (4 * strideOf opts * j + 3)) = (\<not> alphaBelow20 (data img) (4 * strideOf opts * j))"
    if "4 * strideOf opts * j < length (data img)" for j
    using alphaBelow20_shape [OF shape, of "strideOf opts * j"] that
    by (simp add: mult.assoc not_less)
  then show ?thesis unfolding someSampleOpaque_def by auto
qed

lemma quantizeKMeans_unsampled:
  assumes stride: "0 < strideOf opts" and shape: "length (data img) = 4 * n"
    and none: "\<not> someSampleOpaque img opts"
  shows "quantizeKMeans draws img opts =
           Some \<lparr>width = width img, height = height img,
              quantized = \<lparr>width = width img, height = height img, data = data img\<rparr>,
              palette = [\<lparr>rgbR = 0, rgbG = 0, rgbB = 0\<rparr>],
              counts = [width img * height img]\<rparr>"
proof -
  from none have "\<And>j. 0 + 4 * strideOf opts * j < length (data img) \<Longrightarrow>
      alphaBelow20 (data img) (0 + 4 * strideOf opts * j)"
    unfolding sampled_iff [OF shape] by blast
  from sampleLoop_transparent [OF stride this]
  have "sampleLoop (data img) (strideOf opts) 0 [] = Some []" .
  then show ?thesis by (simp add: quantizeKMeans_def Let_def)
qed

lemma quantizeKMeans_total:
  assumes stride: "0 < strideOf opts" and draws: "{..<length (data img)} \<subseteq> set draws"
  shows "quantizeKMeans draws img opts \<noteq> None"
proof -
  from sampleLoop_length [OF stride, of "data img" 0 "[]"] obtain samples where
    s: "sampleLoop (data img) (strideOf opts) 0 [] = Some samples"
    and l: "length samples \<le> length (data img)" by auto
  show ?thesis
  proof (cases "samples = []")
    case True
    with s show ?thesis by (simp add: quantizeKMeans_def Let_def)
  next
    case False
    from l draws have "{..<length samples} \<subseteq> set draws" by auto
    from pickInitialCentroids_total [OF False this, of "clampK (optK opts)"] s False
    show ?thesis by (auto simp: quantizeKMeans_def Let_def split: prod.splits)
  qed
qed

text \<open>
  With a stride of 0 the sampling loop never advances: on a non-empty raster the
  function does not return.
\<close>

lemma sampleLoop_advances:
  assumes "sampleLoop d0 stride0 i0 acc0 = Some r0"
  shows "sampleAdvanceInv d0 stride0 i0 acc0 r0"
proof (rule sampleLoop.raw_induct [where P = sampleAdvanceInv, OF _ assms])
  fix f :: "nat list \<Rightarrow> nat \<Rightarrow> nat \<Rightarrow> nat rgb list \<Rightarrow> nat rgb list option"
  fix d stride i acc r
  assume ih: "\<And>d stride i acc r. f d stride i acc = Some r \<Longrightarrow> sampleAdvanceInv d stride i acc r"
    and eq: "(if i < length d
      then (if alphaBelow20 d i then f d stride (i + 4 * stride) acc
            else f d stride (i + 4 * stride)
                   (acc @ [\<lparr>rgbR = d ! i, rgbG = d ! (i + 1), rgbB = d ! (i + 2)\<rparr>]))
      else Some acc) = Some r"
  show "sampleAdvanceInv d stride i acc r"
    unfolding sampleAdvanceInv_def
  proof
    assume z: "stride = 0 \<and> i < length d"
    with eq obtain acc' where "f d stride i acc' = Some r"
      by (cases "alphaBelow20 d i") auto
    from ih [OF this] z show False by (simp add: sampleAdvanceInv_def)
  qed
qed

lemma sampleLoop_stride_zero:
  assumes "d \<noteq> []"
  shows "sampleLoop d 0 0 acc = None"
proof (rule ccontr)
  assume "sampleLoop d 0 0 acc \<noteq> None"
  then obtain r where "sampleLoop d 0 0 acc = Some r" by blast
  from sampleLoop_advances [OF this] assms show False by (simp add: sampleAdvanceInv_def)
qed

lemma quantizeKMeans_stride_zero:
  assumes "data img \<noteq> []" and "sampleStride opts = Some 0"
  shows "quantizeKMeans draws img opts = None"
  using sampleLoop_stride_zero [OF assms(1), of "[]"] assms(2)
  by (simp add: quantizeKMeans_def Let_def strideOf_def)

text \<open>
  C6. For every raster of the shape of an ImageData (four bytes per pixel) in which every
  pixel has alpha below 20, and every sampling stride of at least 1 (the default is 5),
  quantizeKMeans returns, whatever \<open>k\<close>, the iteration bound and the random draws are:
  the palette is the single entry {r: 0, g: 0, b: 0}, the counts are the single entry
  width * height, and the raster is returned as it is. The function has no error result.
\<close>

theorem quantizeKMeans_transparent:
  assumes stride: "0 < strideOf opts"
    and shape: "length (data img) = 4 * (width img * height img)"
    and transp: "\<forall>p < width img * height img. data img ! (4 * p + 3) < 20"
  shows "\<exists>res. quantizeKMeans draws img opts = Some res \<and>
           palette res = [\<lparr>rgbR = 0, rgbG = 0, rgbB = 0\<rparr>] \<and>
           counts res = [width img * height img] \<and>
           quantized res = img \<and> width res = width img \<and> height res = height img"
proof -
  have "\<not> someSampleOpaque img opts"
  proof
    assume "someSampleOpaque img opts"
    then obtain j where j: "4 * strideOf opts * j < length (data img)"
      "20 \<le> data img ! (4 * strideOf opts * j + 3)" unfolding someSampleOpaque_def by blast
    from j(1) shape have "strideOf opts * j < width img * height img" by simp
    with transp have "data img ! (4 * (strideOf opts * j) + 3) < 20" by blast
    with j(2) show False by (simp add: mult.assoc)
  qed
  from quantizeKMeans_unsampled [OF stride shape this, of draws] show ?thesis by simp
qed

lemma quantizedPixel_transparent:
  "alphaBelow20 d b \<Longrightarrow> t < 4 \<Longrightarrow> quantizedPixel d cs b ! t = 0"
proof -
  assume "alphaBelow20 d b" and "t < 4"
  moreover from \<open>t < 4\<close> have "t = 0 \<or> t = 1 \<or> t = 2 \<or> t = 3" by arith
  ultimately show ?thesis by (auto simp: quantizedPixel_def)
qed

lemma quantizedPixel_opaque:
  assumes "\<not> alphaBelow20 d b" and "cs \<noteq> []" and "\<forall>c \<in> set cs. byteColour c"
  shows "quantizedPixel d cs b ! 3 = 255 \<and>
         (\<exists>c \<in> set cs. quantizedPixel d cs b ! 0 = rgbR c \<and> quantizedPixel d cs b ! 1 = rgbG c \<and>
                        quantizedPixel d cs b ! 2 = rgbB c)"
proof -
  let ?c = "cs ! nearestCentroidIndex (pixelAt d b) cs"
  from nearestCentroidIndex_less [OF assms(2)] have mem: "?c \<in> set cs" by simp
  with assms(3) have "byteColour ?c" by blast
  then have "min 255 (rgbR ?c) = rgbR ?c" "min 255 (rgbG ?c) = rgbG ?c" "min 255 (rgbB ?c) = rgbB ?c"
    by (simp_all add: byteColour_def)
  with assms(1) mem show ?thesis
    by (auto simp: quantizedPixel_def Let_def)
qed

lemma quantized_pixel_bytes:
  assumes shape: "length d = 4 * n" and p: "p < n" and t: "t < 4"
  shows "fst (quantizeLoop d cs (replicate (length d) 0) cnts 0) ! (4 * p + t)
           = quantizedPixel d cs (4 * p) ! t"
proof -
  have b: "(4 * p) mod 4 = 0" by simp
  from shape p t have j: "4 * p + t < length (replicate (length d) (0::nat))" by simp
  from pixel_offset [OF b t] have off: "(4 * p + t) mod 4 = t" "4 * p + t - (4 * p + t) mod 4 = 4 * p"
    by simp_all
  have "fst (quantizeLoop d cs (replicate (length d) 0) cnts 0) ! (4 * p + t) =
      (if 0 \<le> 4 * p + t
       then quantizedPixel d cs (4 * p + t - (4 * p + t) mod 4) ! ((4 * p + t) mod 4)
       else replicate (length d) 0 ! (4 * p + t))"
    using j by (intro quantizeLoop_nth) simp_all
  then show ?thesis by (simp only: off le0 if_True add_diff_cancel_right')
qed

text \<open>
  C10, amended. For every raster of the shape of an ImageData with byte entries: the
  returned palette entries always have components in 0..255. When sampling meets a pixel
  with alpha at least 20, every output pixel whose input alpha was below 20 is
  (0, 0, 0, 0), and every other output pixel has alpha 255 and the RGB of one of the
  returned palette entries. When sampling meets no such pixel, the raster is returned
  unchanged with the palette [{r: 0, g: 0, b: 0}]. The function returns whenever the
  stride is at least 1 and the random draws reach every index.
\<close>

theorem quantizeKMeans_output:
  assumes shape: "length (data img) = 4 * (width img * height img)"
    and bytes: "\<forall>b \<in> set (data img). b \<le> 255"
  shows "(0 < strideOf opts \<and> {..<length (data img)} \<subseteq> set draws \<longrightarrow>
            quantizeKMeans draws img opts \<noteq> None) \<and>
         (\<forall>res. quantizeKMeans draws img opts = Some res \<longrightarrow>
            (\<forall>c \<in> set (palette res). rgbR c \<le> 255 \<and> rgbG c \<le> 255 \<and> rgbB c \<le> 255) \<and>
            (someSampleOpaque img opts \<longrightarrow>
               (\<forall>p < width img * height img.
                  (data img ! (4 * p + 3) < 20 \<longrightarrow>
                     data (quantized res) ! (4 * p) = 0 \<and> data (quantized res) ! (4 * p + 1) = 0 \<and>
                     data (quantized res) ! (4 * p + 2) = 0 \<and> data (quantized res) ! (4 * p + 3) = 0) \<and>
                  (20 \<le> data img ! (4 * p + 3) \<longrightarrow>
                     data (quantized res) ! (4 * p + 3) = 255 \<and>
                     (\<exists>c \<in> set (palette res).
                        data (quantized res) ! (4 * p) = rgbR c \<and>
                        data (quantized res) ! (4 * p + 1) = rgbG c \<and>
                        data (quantized res) ! (4 * p + 2) = rgbB c)))) \<and>
            (\<not> someSampleOpaque img opts \<longrightarrow>
               quantized res = img \<and> palette res = [\<lparr>rgbR = 0, rgbG = 0, rgbB = 0\<rparr>]))"
proof -
  let ?d = "data img" and ?k = "clampK (optK opts)"
  let ?n = "width img * height img"
  have total: "0 < strideOf opts \<and> {..<length (data img)} \<subseteq> set draws \<longrightarrow>
            quantizeKMeans draws img opts \<noteq> None"
    using quantizeKMeans_total by blast
  have pal: "\<forall>c \<in> set (palette res). rgbR c \<le> 255 \<and> rgbG c \<le> 255 \<and> rgbB c \<le> 255"
    if res: "quantizeKMeans draws img opts = Some res" for res
    using res
  proof (cases rule: quantizeKMeans_Some)
    case degenerate
    then show ?thesis by simp
  next
    case (clustered samples c0)
    from shape have d4: "4 dvd length ?d" by simp
    from sampleLoop_bytes [OF clustered(1)] d4 bytes have sb: "\<forall>c \<in> set samples. byteColour c"
      by (simp add: sampleBytesInv_def)
    from pickInitialCentroids_sound [OF clustered(3,2)] sb
    have "\<forall>c \<in> set c0. byteColour c" by blast
    from kmeansLoop_bytes [OF this, of "itersOf opts" samples ?k] clustered(4)
    show ?thesis by (simp add: byteColour_def)
  qed
  have op: "\<forall>p < ?n.
                  (data img ! (4 * p + 3) < 20 \<longrightarrow>
                     data (quantized res) ! (4 * p) = 0 \<and> data (quantized res) ! (4 * p + 1) = 0 \<and>
                     data (quantized res) ! (4 * p + 2) = 0 \<and> data (quantized res) ! (4 * p + 3) = 0) \<and>
                  (20 \<le> data img ! (4 * p + 3) \<longrightarrow>
                     data (quantized res) ! (4 * p + 3) = 255 \<and>
                     (\<exists>c \<in> set (palette res).
                        data (quantized res) ! (4 * p) = rgbR c \<and>
                        data (quantized res) ! (4 * p + 1) = rgbG c \<and>
                        data (quantized res) ! (4 * p + 2) = rgbB c))"
    if res: "quantizeKMeans draws img opts = Some res" and so: "someSampleOpaque img opts" for res
    using res
    proof (cases rule: quantizeKMeans_Some)
      case degenerate
      from sampleLoop_some [OF degenerate(1)] so show ?thesis
        unfolding sampleSomeInv_def sampled_iff [OF shape] by blast
    next
      case (clustered samples c0)
      let ?cs = "kmeansLoop (itersOf opts) samples c0 ?k"
      from shape have d4: "4 dvd length ?d" by simp
      from sampleLoop_bytes [OF clustered(1)] d4 bytes have sb: "\<forall>c \<in> set samples. byteColour c"
        by (simp add: sampleBytesInv_def)
      from pickInitialCentroids_sound [OF clustered(3,2)] sb
      have c0: "\<forall>c \<in> set c0. byteColour c" "length c0 = ?k" by blast+
      from kmeansLoop_bytes [OF c0(1), of "itersOf opts" samples ?k] c0(2)
      have cs: "\<forall>c \<in> set ?cs. byteColour c" "length ?cs = ?k" by simp_all
      from cs(2) clampK_ge [of "optK opts"] have ne: "?cs \<noteq> []" by auto
      have out: "data (quantized res) ! (4 * p + t) = quantizedPixel ?d ?cs (4 * p) ! t"
        if "p < ?n" "t < 4" for p t
        using quantized_pixel_bytes [OF shape that] clustered(4) by simp
      have pal: "palette res = ?cs" using clustered(4) by simp
      show ?thesis
      proof (intro allI impI conjI)
        fix p assume p: "p < ?n" and a: "data img ! (4 * p + 3) < 20"
        from p shape have "4 * p < length ?d" by simp
        with a alphaBelow20_shape [OF shape] have tr: "alphaBelow20 ?d (4 * p)" by simp
        from out [OF p, of 0] quantizedPixel_transparent [OF tr, of 0 ?cs]
        show "data (quantized res) ! (4 * p) = 0" by simp
        from out [OF p, of 1] quantizedPixel_transparent [OF tr, of 1 ?cs]
        show "data (quantized res) ! (4 * p + 1) = 0" by simp
        from out [OF p, of 2] quantizedPixel_transparent [OF tr, of 2 ?cs]
        show "data (quantized res) ! (4 * p + 2) = 0" by simp
        from out [OF p, of 3] quantizedPixel_transparent [OF tr, of 3 ?cs]
        show "data (quantized res) ! (4 * p + 3) = 0" by simp
      next
        fix p assume p: "p < ?n" and a: "20 \<le> data img ! (4 * p + 3)"
        from p shape have "4 * p < length ?d" by simp
        with a alphaBelow20_shape [OF shape] have op: "\<not> alphaBelow20 ?d (4 * p)" by simp
        note q = quantizedPixel_opaque [OF op ne cs(1)]
        from out [OF p, of 3] q show "data (quantized res) ! (4 * p + 3) = 255" by simp
        from q obtain c where c: "c \<in> set ?cs" "quantizedPixel ?d ?cs (4 * p) ! 0 = rgbR c"
          "quantizedPixel ?d ?cs (4 * p) ! 1 = rgbG c" "quantizedPixel ?d ?cs (4 * p) ! 2 = rgbB c"
          by blast
        from out [OF p, of 0] out [OF p, of 1] out [OF p, of 2] c
        show "\<exists>c \<in> set (palette res).
                        data (quantized res) ! (4 * p) = rgbR c \<and>
                        data (quantized res) ! (4 * p + 1) = rgbG c \<and>
                        data (quantized res) ! (4 * p + 2) = rgbB c"
          unfolding pal by (intro bexI [of _ c]) simp_all
      qed
    qed
  have un: "quantized res = img \<and> palette res = [\<lparr>rgbR = 0, rgbG = 0, rgbB = 0\<rparr>]"
    if res: "quantizeKMeans draws img opts = Some res" and nso: "\<not> someSampleOpaque img opts"
    for res
    using res
    proof (cases rule: quantizeKMeans_Some)
      case degenerate
      then show ?thesis by simp
    next
      case (clustered samples c0)
      from sampleLoop_none [OF clustered(1)] nso have "samples = []"
        unfolding sampleNoneInv_def sampled_iff [OF shape] by blast
      with clustered(2) show ?thesis by simp
    qed
  show ?thesis
  proof (rule conjI [OF total], intro allI impI)
    fix res
    assume r: "quantizeKMeans draws img opts = Some res"
    from un [OF r] have un1: "\<not> someSampleOpaque img opts \<Longrightarrow> quantized res = img"
      and un2: "\<not> someSampleOpaque img opts \<Longrightarrow> palette res = [\<lparr>rgbR = 0, rgbG = 0, rgbB = 0\<rparr>]"
      by simp_all
    from pal [OF r] op [OF r] un1 un2
    show "(\<forall>c \<in> set (palette res). rgbR c \<le> 255 \<and> rgbG c \<le> 255 \<and> rgbB c \<le> 255) \<and>
            (someSampleOpaque img opts \<longrightarrow>
               (\<forall>p < width img * height img.
                  (data img ! (4 * p + 3) < 20 \<longrightarrow>
                     data (quantized res) ! (4 * p) = 0 \<and> data (quantized res) ! (4 * p + 1) = 0 \<and>
                     data (quantized res) ! (4 * p + 2) = 0 \<and> data (quantized res) ! (4 * p + 3) = 0) \<and>
                  (20 \<le> data img ! (4 * p + 3) \<longrightarrow>
                     data (quantized res) ! (4 * p + 3) = 255 \<and>
                     (\<exists>c \<in> set (palette res).
                        data (quantized res) ! (4 * p) = rgbR c \<and>
                        data (quantized res) ! (4 * p + 1) = rgbG c \<and>
                        data (quantized res) ! (4 * p + 2) = rgbB c)))) \<and>
            (\<not> someSampleOpaque img opts \<longrightarrow>
               quantized res = img \<and> palette res = [\<lparr>rgbR = 0, rgbG = 0, rgbB = 0\<rparr>])"
      by (intro conjI impI) assumption+
  qed
qed

lemma reportColors_sorted:
  "sorted_wrt (\<lambda>a b. count b \<le> count a) (reportColors hp cnts)"
proof -
  have "sorted (map (\<lambda>c. - int (count c)) (reportColors hp cnts))"
    unfolding reportColors_def Let_def by (rule sorted_sort_key)
  then show ?thesis by (simp add: sorted_map)
qed

lemma reportColors_positive: "c \<in> set (reportColors hp cnts) \<Longrightarrow> 0 < count c"
  by (auto simp: reportColors_def Let_def)

lemma reportColors_sound:
  assumes "c \<in> set (reportColors (map rgbToHex pal) cnts)"
  shows "\<exists>idx. paletteEntry pal cnts idx c"
  using assms by (auto simp: reportColors_def Let_def paletteEntry_def)

lemma reportColors_complete:
  assumes "idx < length pal" and "0 < cnts ! idx"
  shows "\<exists>c \<in> set (reportColors (map rgbToHex pal) cnts). paletteEntry pal cnts idx c"
proof -
  let ?total = "sum_list cnts"
  let ?e = "\<lparr>hex = map rgbToHex pal ! idx, count = cnts ! idx,
             percent = (if ?total = 0 then 0 else of_nat (cnts ! idx) / of_nat ?total * 100)\<rparr>"
  from assms have "?e \<in> set (reportColors (map rgbToHex pal) cnts)"
    by (auto simp: reportColors_def Let_def intro!: image_eqI [of _ _ idx])
  moreover have "paletteEntry pal cnts idx ?e" using assms by (simp add: paletteEntry_def)
  ultimately show ?thesis by blast
qed

lemma kmeansLoop_length: "length (kmeansLoop m samples cs k) = length cs"
proof (induction m arbitrary: cs)
  case 0
  show ?case by simp
next
  case (Suc m)
  obtain cs' moved where r: "kmeansRound samples cs k = (cs', moved)"
    by (cases "kmeansRound samples cs k")
  from kmeansRound_bytes [of samples cs k] r have "length cs' = length cs" by simp
  with r Suc.IH [of cs'] show ?case by simp
qed

lemma quantizeKMeans_coverage:
  assumes res: "quantizeKMeans draws img opts = Some q"
    and shape: "length (data img) = 4 * n" and so: "someSampleOpaque img opts"
    and idx: "idx < length (palette q)"
  shows "counts q ! idx = coverage (data img) (palette q) idx"
  using res
proof (cases rule: quantizeKMeans_Some)
  case degenerate
  from sampleLoop_some [OF degenerate(1)] so show ?thesis
    unfolding sampleSomeInv_def sampled_iff [OF shape] by blast
next
  case (clustered samples c0)
  let ?k = "clampK (optK opts)"
  from pickInitialCentroids_sound [OF clustered(3,2)] have "length c0 = ?k" by simp
  moreover have "length (kmeansLoop (itersOf opts) samples c0 ?k) = length c0"
    by (rule kmeansLoop_length)
  ultimately have "idx < ?k" using idx clustered(4) by simp
  from quantizeLoop_coverage [OF shape this] clustered(4) show ?thesis by simp
qed

lemma reduceColorsMainThread_total:
  assumes "{..<length (data img)} \<subseteq> set draws"
  shows "reduceColorsMainThread draws img k \<noteq> None"
proof -
  have "0 < strideOf \<lparr>optK = k, maxIters = Some 12, sampleStride = Some 5\<rparr>"
    by (simp add: strideOf_def)
  from quantizeKMeans_total [OF this assms] show ?thesis
    by (auto simp: reduceColorsMainThread_def Let_def split: option.splits)
qed

text \<open>
  C3. The palette that the quantize operation reports (the colors of
  reduceColorsMainThread, computed from the palette and counts of quantizeKMeans) is in
  descending order of the count, and has no entry with count zero: its entries are
  exactly the centroids with a positive count, each with its hex colour and count. When
  sampling meets a pixel with alpha at least 20, the count of a centroid is its coverage:
  the number of pixels of the whole raster with alpha at least 20 whose nearest centroid
  it is. The operation returns whenever the random draws reach every index.
\<close>

theorem reported_palette_order:
  "({..<length (data img)} \<subseteq> set draws \<longrightarrow> reduceColorsMainThread draws img k \<noteq> None) \<and>
   (\<forall>res. reduceColorsMainThread draws img k = Some res \<longrightarrow>
      sorted_wrt (\<lambda>a b. count b \<le> count a) (colors res) \<and>
      (\<forall>c \<in> set (colors res). 0 < count c) \<and>
      (\<exists>q. quantizeKMeans draws img \<lparr>optK = k, maxIters = Some 12, sampleStride = Some 5\<rparr> = Some q \<and>
           (\<forall>c \<in> set (colors res). \<exists>idx. paletteEntry (palette q) (counts q) idx c) \<and>
           (\<forall>idx < length (palette q). 0 < counts q ! idx \<longrightarrow>
              (\<exists>c \<in> set (colors res). paletteEntry (palette q) (counts q) idx c)) \<and>
           (length (data img) = 4 * (width img * height img) \<and>
            someSampleOpaque img \<lparr>optK = k, maxIters = Some 12, sampleStride = Some 5\<rparr> \<longrightarrow>
              (\<forall>idx < length (palette q).
                 counts q ! idx = coverage (data img) (palette q) idx))))"
proof (rule conjI)
  show "{..<length (data img)} \<subseteq> set draws \<longrightarrow> reduceColorsMainThread draws img k \<noteq> None"
    using reduceColorsMainThread_total by blast
next
  let ?opts = "\<lparr>optK = k, maxIters = Some 12, sampleStride = Some 5\<rparr>"
  show "\<forall>res. reduceColorsMainThread draws img k = Some res \<longrightarrow>
      sorted_wrt (\<lambda>a b. count b \<le> count a) (colors res) \<and>
      (\<forall>c \<in> set (colors res). 0 < count c) \<and>
      (\<exists>q. quantizeKMeans draws img ?opts = Some q \<and>
           (\<forall>c \<in> set (colors res). \<exists>idx. paletteEntry (palette q) (counts q) idx c) \<and>
           (\<forall>idx < length (palette q). 0 < counts q ! idx \<longrightarrow>
              (\<exists>c \<in> set (colors res). paletteEntry (palette q) (counts q) idx c)) \<and>
           (length (data img) = 4 * (width img * height img) \<and> someSampleOpaque img ?opts \<longrightarrow>
              (\<forall>idx < length (palette q).
                 counts q ! idx = coverage (data img) (palette q) idx)))"
  proof (intro allI impI)
    fix res
    assume r: "reduceColorsMainThread draws img k = Some res"
    then obtain q where q: "quantizeKMeans draws img ?opts = Some q"
      and cols: "colors res = reportColors (map rgbToHex (palette q)) (counts q)"
      by (auto simp: reduceColorsMainThread_def Let_def split: option.splits)
    have s: "sorted_wrt (\<lambda>a b. count b \<le> count a) (colors res)"
      unfolding cols by (rule reportColors_sorted)
    have pos: "\<forall>c \<in> set (colors res). 0 < count c"
      unfolding cols using reportColors_positive by blast
    have snd: "\<forall>c \<in> set (colors res). \<exists>idx. paletteEntry (palette q) (counts q) idx c"
      unfolding cols using reportColors_sound by blast
    have cmp: "\<forall>idx < length (palette q). 0 < counts q ! idx \<longrightarrow>
              (\<exists>c \<in> set (colors res). paletteEntry (palette q) (counts q) idx c)"
      unfolding cols using reportColors_complete by blast
    have cov: "length (data img) = 4 * (width img * height img) \<and> someSampleOpaque img ?opts \<longrightarrow>
              (\<forall>idx < length (palette q).
                 counts q ! idx = coverage (data img) (palette q) idx)"
      using quantizeKMeans_coverage [OF q] by blast
    from q s pos snd cmp cov
    show "sorted_wrt (\<lambda>a b. count b \<le> count a) (colors res) \<and>
      (\<forall>c \<in> set (colors res). 0 < count c) \<and>
      (\<exists>q. quantizeKMeans draws img ?opts = Some q \<and>
           (\<forall>c \<in> set (colors res). \<exists>idx. paletteEntry (palette q) (counts q) idx c) \<and>
           (\<forall>idx < length (palette q). 0 < counts q ! idx \<longrightarrow>
              (\<exists>c \<in> set (colors res). paletteEntry (palette q) (counts q) idx c)) \<and>
           (length (data img) = 4 * (width img * height img) \<and> someSampleOpaque img ?opts \<longrightarrow>
              (\<forall>idx < length (palette q).
                 counts q ! idx = coverage (data img) (palette q) idx)))"
      by (intro conjI exI [of _ q]) assumption+
  qed
qed

theorem quantizeKMeans_transparent_witness:
  "\<exists>res. quantizeKMeans [] transparentImage defaultOptions = Some res \<and>
         palette res = [\<lparr>rgbR = 0, rgbG = 0, rgbB = 0\<rparr>] \<and>
         counts res = [2] \<and> quantized res = transparentImage"
proof -
  have stride: "0 < strideOf defaultOptions"
    by (simp add: strideOf_def defaultOptions_def)
  have shape: "length (data transparentImage)
      = 4 * (width transparentImage * height transparentImage)"
    by (simp add: transparentImage_def)
  have transp: "\<forall>p < width transparentImage * height transparentImage.
      data transparentImage ! (4 * p + 3) < 20"
  proof (intro allI impI)
    fix p assume "p < width transparentImage * height transparentImage"
    then have "p = 0 \<or> p = 1" by (auto simp: transparentImage_def)
    then show "data transparentImage ! (4 * p + 3) < 20"
      by (auto simp: transparentImage_def)
  qed
  from quantizeKMeans_transparent [OF stride shape transp, of "[]"] have
    "\<exists>res. quantizeKMeans [] transparentImage defaultOptions = Some res \<and>
           palette res = [\<lparr>rgbR = 0, rgbG = 0, rgbB = 0\<rparr>] \<and>
           counts res = [width transparentImage * height transparentImage] \<and>
           quantized res = transparentImage"
    by blast
  moreover have "width transparentImage * height transparentImage = 2"
    by (simp add: transparentImage_def)
  ultimately show ?thesis by simp
qed

text \<open>
  C10, as stated: every output pixel whose input alpha was below 20 is (0, 0, 0, 0) and
  every other output pixel has alpha 255 and a palette colour. On the two-pixel raster
  below, with the default stride of 5, only the first pixel is sampled; it is
  transparent, so the raster is returned as it is: the first pixel stays (10, 20, 30, 5),
  and the second keeps alpha 200 and the colour (255, 0, 0), which is not in the palette.
\<close>

theorem quantizeKMeans_output_counterexample:
  "data unsampledImage = [10, 20, 30, 5, 255, 0, 0, 200] \<and>
   quantizeKMeans [] unsampledImage defaultOptions =
     Some \<lparr>width = 2, height = 1,
            quantized = \<lparr>width = 2, height = 1, data = [10, 20, 30, 5, 255, 0, 0, 200]\<rparr>,
            palette = [\<lparr>rgbR = 0, rgbG = 0, rgbB = 0\<rparr>], counts = [2]\<rparr>"
  by code_simp

lemma quantizeKMeans_example:
  "quantizeKMeans [0, 0, 1, 2] threePixelImage everyPixel =
     Some \<lparr>width = 3, height = 1,
            quantized = \<lparr>width = 3, height = 1,
                          data = [250, 0, 0, 255, 0, 0, 0, 0, 254, 2, 0, 255]\<rparr>,
            palette = [\<lparr>rgbR = 250, rgbG = 0, rgbB = 0\<rparr>, \<lparr>rgbR = 254, rgbG = 2, rgbB = 0\<rparr>],
            counts = [1, 1]\<rparr>"
  by code_simp

theorem quantizeKMeans_output_witness:
  "data (quantized (the (quantizeKMeans [0, 0, 1, 2] threePixelImage everyPixel))) ! (4 * 1 + 3) = 0 \<and>
   data (quantized (the (quantizeKMeans [0, 0, 1, 2] threePixelImage everyPixel))) ! (4 * 0 + 3) = 255"
proof -
  let ?res = "the (quantizeKMeans [0, 0, 1, 2] threePixelImage everyPixel)"
  have r: "quantizeKMeans [0, 0, 1, 2] threePixelImage everyPixel = Some ?res"
    by (simp only: quantizeKMeans_example option.sel)
  have shape: "length (data threePixelImage)
      = 4 * (width threePixelImage * height threePixelImage)"
    by (simp add: threePixelImage_def)
  have bytes: "\<forall>b \<in> set (data threePixelImage). b \<le> 255"
    by (simp add: threePixelImage_def)
  have "4 * strideOf everyPixel * 0 < length (data threePixelImage) \<and>
      20 \<le> data threePixelImage ! (4 * strideOf everyPixel * 0 + 3)"
    by (simp add: threePixelImage_def)
  then have so: "someSampleOpaque threePixelImage everyPixel"
    unfolding someSampleOpaque_def by blast
  have p1: "1 < width threePixelImage * height threePixelImage"
    and p0: "0 < width threePixelImage * height threePixelImage"
    and a1: "data threePixelImage ! (4 * 1 + 3) < 20"
    and a0: "20 \<le> data threePixelImage ! (4 * 0 + 3)"
    by (simp_all add: threePixelImage_def)
  from quantizeKMeans_output [OF shape bytes, of everyPixel "[0, 0, 1, 2]"] r so
  have all: "\<forall>p < width threePixelImage * height threePixelImage.
      (data threePixelImage ! (4 * p + 3) < 20 \<longrightarrow>
         data (quantized ?res) ! (4 * p) = 0 \<and> data (quantized ?res) ! (4 * p + 1) = 0 \<and>
         data (quantized ?res) ! (4 * p + 2) = 0 \<and> data (quantized ?res) ! (4 * p + 3) = 0) \<and>
      (20 \<le> data threePixelImage ! (4 * p + 3) \<longrightarrow>
         data (quantized ?res) ! (4 * p + 3) = 255 \<and>
         (\<exists>c \<in> set (palette ?res).
            data (quantized ?res) ! (4 * p) = rgbR c \<and>
            data (quantized ?res) ! (4 * p + 1) = rgbG c \<and>
            data (quantized ?res) ! (4 * p + 2) = rgbB c))"
    by blast
  from all [rule_format, OF p1] a1 all [rule_format, OF p0] a0 show ?thesis by blast
qed

lemma reduceColorsMainThread_example:
  "reduceColorsMainThread [0, 1] sixPixelImage 2 =
     Some \<lparr>width = 6, height = 1,
            colors = [\<lparr>hex = ''#0000FA'', count = 4, percent = 80\<rparr>,
                      \<lparr>hex = ''#FA0000'', count = 1, percent = 20\<rparr>],
            colorCount = 2,
            reducedImage = \<lparr>width = 6, height = 1,
              data = [250, 0, 0, 255, 0, 0, 250, 255, 0, 0, 250, 255, 0, 0, 0, 0,
                      0, 0, 250, 255, 0, 0, 250, 255]\<rparr>\<rparr>"
  by code_simp

theorem reported_palette_order_witness:
  "sorted_wrt (\<lambda>a b. count b \<le> count a)
     (colors (the (reduceColorsMainThread [0, 1] sixPixelImage 2))) \<and>
   map count (colors (the (reduceColorsMainThread [0, 1] sixPixelImage 2))) = [4, 1]"
proof -
  let ?res = "the (reduceColorsMainThread [0, 1] sixPixelImage 2)"
  have r: "reduceColorsMainThread [0, 1] sixPixelImage 2 = Some ?res"
    by (simp only: reduceColorsMainThread_example option.sel)
  from reported_palette_order [of sixPixelImage "[0, 1]" 2] r
  have "sorted_wrt (\<lambda>a b. count b \<le> count a) (colors ?res)" by blast
  moreover have "map count (colors ?res) = [4, 1]"
    by (simp only: reduceColorsMainThread_example option.sel) simp
  ultimately show ?thesis by simp
qed

section \<open>removeSpecks on isolated clusters\<close>

lemma removeSpecks_fragments:
  "removeSpecks speckImage [''#FF0000'', ''#0000FF''] 2 =
     Some (Inr (\<lparr>width = 3, height = 2,
                  data = [0, 0, 255, 255, 0, 0, 255, 255, 0, 0, 255, 255,
                          0, 0, 255, 255, 0, 0, 255, 255, 0, 0, 0, 0]\<rparr>, 3))"
  by code_simp

text \<open>
  C4. A cluster below minClusterSize with an empty border tally should be left unchanged
  and should not count as removed. On a raster of one opaque red pixel with the palette
  [red] and minClusterSize 2, the single cluster has no neighbour; the code rewrites it
  with its own palette colour at alpha 255 and reports one removed pixel. With an input
  alpha of 100 the alpha byte changes to 255 as well.
\<close>

theorem removeSpecks_isolated_cluster:
  "removeSpecks onePixelImage [''#FF0000''] 2 =
     Some (Inr (\<lparr>width = 1, height = 1, data = [255, 0, 0, 255]\<rparr>, 1)) \<and>
   data fadedPixelImage = [255, 0, 0, 100] \<and>
   removeSpecks fadedPixelImage [''#FF0000''] 2 =
     Some (Inr (\<lparr>width = 1, height = 1, data = [255, 0, 0, 255]\<rparr>, 1))"
  by code_simp

end
